theory Spec2Isabelle
  imports Main "HOL-Library.Word"
begin

unbundle bit_operations_syntax

section \<open>Agon firmware upgrade utility: machine model\<close>

text \<open>
  The utility of \<^verbatim>\<open>main.c\<close> runs on an eZ80F92, whose \<^verbatim>\<open>int\<close> and pointers are
  24 bits wide. Bytes are \<open>8 word\<close>, checksums \<open>32 word\<close>; the 24-bit quantities
  (\<^verbatim>\<open>uint24_t\<close>, addresses) are natural numbers reduced modulo \<open>2 ^ 24\<close> wherever the
  source computes one.
\<close>

type_synonym byte = "8 word"
type_synonym u32 = "32 word"

definition u24 :: "nat \<Rightarrow> nat" where
  "u24 a = a mod 16777216"

subsection \<open>Constants of \<^verbatim>\<open>flash.h\<close> and \<^verbatim>\<open>main.c\<close>\<close>

definition BUFFER1 :: nat where "BUFFER1 = 0x50000"
definition FLASHSIZE :: nat where "FLASHSIZE = 0x20000"
definition PAGESIZE :: nat where "PAGESIZE = 1024"
definition FLASHPAGES :: nat where "FLASHPAGES = 128"
definition FLASHSTART :: nat where "FLASHSTART = 0"
definition BLOCKSIZE :: nat where "BLOCKSIZE = 16384"
definition UNLOCKMATCHLENGTH :: nat where "UNLOCKMATCHLENGTH = 9"
definition ESP32_MAGICLENGTH :: nat where "ESP32_MAGICLENGTH = 4"
definition ESP32_MAGICSTART :: nat where "ESP32_MAGICSTART = 0x20"
definition esp32_magicnumbers :: "byte list" where
  "esp32_magicnumbers = [0x32, 0x54, 0xCD, 0xAB]"

section \<open>Streaming checksum\<close>

text \<open>
  Modelled from the spec: the functions \<^verbatim>\<open>crc32_initialize\<close>, \<^verbatim>\<open>crc32\<close> and
  \<^verbatim>\<open>crc32_finalize\<close> declared in \<^verbatim>\<open>crc32.h\<close> are not among the sources. The spec fixes
  them as the standard reflected CRC-32: polynomial \<open>0xEDB88320\<close> in reflected form, initial
  value \<open>0xFFFFFFFF\<close>, final XOR \<open>0xFFFFFFFF\<close>, fed with chunks of any length.
\<close>

definition crc32_bit :: "u32 \<Rightarrow> u32" where
  "crc32_bit c = (if c AND 1 = 1 then drop_bit 1 c XOR 0xEDB88320 else drop_bit 1 c)"

definition crc32_byte :: "u32 \<Rightarrow> byte \<Rightarrow> u32" where
  "crc32_byte c b =
     crc32_bit (crc32_bit (crc32_bit (crc32_bit
       (crc32_bit (crc32_bit (crc32_bit (crc32_bit (c XOR ucast b))))))))"

definition crc32_init :: u32 where
  "crc32_init = 0xFFFFFFFF"

definition crc32_feed :: "u32 \<Rightarrow> byte list \<Rightarrow> u32" where
  "crc32_feed acc bs = foldl crc32_byte acc bs"

definition crc32_final :: "u32 \<Rightarrow> u32" where
  "crc32_final acc = acc XOR 0xFFFFFFFF"

section \<open>Image validator\<close>

text \<open>
  \<^verbatim>\<open>containsESP32Header(uint8_t *filestart)\<close>: the pointer is the map from an offset to
  the byte stored there. The loop runs \<open>n\<close> from 0 to 3 and clears \<open>match\<close> at every
  position where the magic number and \<open>filestart[0x20 + n]\<close> differ.
\<close>

function esp32_loop :: "(nat \<Rightarrow> byte) \<Rightarrow> nat \<Rightarrow> bool \<Rightarrow> bool" where
  "esp32_loop filestart n match =
     (if n < ESP32_MAGICLENGTH
      then esp32_loop filestart (Suc n)
             (if esp32_magicnumbers ! n \<noteq> filestart n then False else match)
      else match)"
  by pat_completeness auto
termination
  by (relation "measure (\<lambda>(filestart, n, match). ESP32_MAGICLENGTH - n)") auto

definition containsESP32Header :: "(nat \<Rightarrow> byte) \<Rightarrow> bool" where
  "containsESP32Header filestart =
     esp32_loop (\<lambda>n. filestart (ESP32_MAGICSTART + n)) 0 True"

section \<open>Machine state, environment and events\<close>

text \<open>
  Everything the utility does to the outside world is appended to a trace, in program
  order: bytes sent to the UART by \<^verbatim>\<open>putch\<close>, delays, writes to and reads of the flash
  controller's I/O registers, the \<^verbatim>\<open>di\<close> instruction and the calls of the external routines
  \<^verbatim>\<open>enableFlashKeyRegister\<close>, \<^verbatim>\<open>fastmemcpy\<close>, \<^verbatim>\<open>startVDPupdate\<close>, \<^verbatim>\<open>crc32_initialize\<close>,
  \<^verbatim>\<open>crc32\<close> and \<^verbatim>\<open>crc32_finalize\<close>. \<open>StoreTest n c\<close> records the assignment
  \<^verbatim>\<open>test[n] = c\<close> of \<^verbatim>\<open>vdp_ota_present\<close>.
\<close>

datatype ioreg = FLASH_PROT | FLASH_FDIV | FLASH_PAGE | FLASH_PGCTL

datatype event =
    Putch byte
  | Delay nat
  | StoreTest nat byte
  | StartVDPupdate byte nat
  | DisableInterrupts
  | EnableFlashKey
  | IOWrite ioreg byte
  | IORead ioreg byte
  | FastMemcpy nat nat nat
  | Crc32Initialize
  | Crc32 nat nat
  | Crc32Finalize u32

type_synonym memory = "nat \<Rightarrow> byte"

text \<open>
  The environment: what the hardware and the routines that are not part of \<^verbatim>\<open>main.c\<close> do.
  \<open>flash_erase p\<close> is the effect on memory of a page erase started with \<^verbatim>\<open>FLASH_PAGE = p\<close>,
  \<open>fastmemcpy d s n\<close> the effect of the bulk copy, \<open>pgctl k\<close> the value of the \<open>k\<close>-th read
  of \<^verbatim>\<open>FLASH_PGCTL\<close>, \<open>scrchar k\<close> the value of the \<open>k\<close>-th call of
  \<^verbatim>\<open>getsysvar_scrchar\<close>, \<open>getFileSize h\<close> the size reported for file handle \<open>h\<close>.
  Nothing is assumed about them: a flash that does not erase or does not take the data
  is an environment like any other.
\<close>

record hw =
  flash_erase :: "nat \<Rightarrow> memory \<Rightarrow> memory"
  fastmemcpy :: "nat \<Rightarrow> nat \<Rightarrow> nat \<Rightarrow> memory \<Rightarrow> memory"
  pgctl :: "nat \<Rightarrow> byte"
  scrchar :: "nat \<Rightarrow> byte"
  getFileSize :: "byte \<Rightarrow> nat"

text \<open>
  The state: the 24-bit address space (flash from \<open>FLASHSTART\<close>, the staging buffer at
  \<open>BUFFER1\<close>), the interrupt enable flag, the accumulator of the checksum module, the
  globals \<^verbatim>\<open>moscrc\<close>, \<^verbatim>\<open>mosfilehandle\<close> (the bytes \<^verbatim>\<open>fread\<close> has yet to deliver, and
  the handle number) and \<^verbatim>\<open>vdpfilehandle\<close>, and how many values of the two input
  streams of the environment have been consumed.
\<close>

record machine =
  mem :: memory
  interrupts :: bool
  crc :: u32
  moscrc :: u32
  mosfile :: "byte list"
  mos_fhandle :: byte
  vdp_fhandle :: byte
  pgctl_reads :: nat
  scr_reads :: nat
  trace :: "event list"

definition emit :: "event \<Rightarrow> machine \<Rightarrow> machine" where
  "emit e s = s\<lparr>trace := trace s @ [e]\<rparr>"

subsection \<open>Console primitives\<close>

definition putch :: "byte \<Rightarrow> machine \<Rightarrow> machine" where
  "putch c s = emit (Putch c) s"

definition outstring :: "string \<Rightarrow> machine \<Rightarrow> machine" where
  "outstring str s = fold (\<lambda>ch. putch (of_char ch)) str s"

definition delayms :: "nat \<Rightarrow> machine \<Rightarrow> machine" where
  "delayms n s = emit (Delay n) s"

text \<open>The C escapes \<^verbatim>\<open>\r\<close> and \<^verbatim>\<open>\n\<close>.\<close>

definition CR :: char where "CR = CHR 0x0D"
definition LF :: char where "LF = CHR 0x0A"

definition print_version :: "machine \<Rightarrow> machine" where
  "print_version s = outstring (''Agon firmware update utility v1.9'' @ [LF, CR, LF, CR]) s"

section \<open>Coprocessor update handshake\<close>

text \<open>
  \<^verbatim>\<open>getCharAt(x, y)\<close> asks the VDP for the character at a screen position and returns
  what \<^verbatim>\<open>getsysvar_scrchar()\<close> then holds: the next value of the environment's stream.
\<close>

definition getCharAt :: "hw \<Rightarrow> nat \<Rightarrow> nat \<Rightarrow> machine \<Rightarrow> byte \<times> machine" where
  "getCharAt h x y s =
     (let s1 = delayms 20 s;
          s2 = putch 23 s1;
          s3 = putch 0 s2;
          s4 = putch 131 s3;
          s5 = putch (of_nat (x mod 256)) s4;
          s6 = putch (of_nat ((x div 256) mod 256)) s5;
          s7 = putch (of_nat (y mod 256)) s6;
          s8 = putch (of_nat ((y div 256) mod 256)) s7;
          s9 = delayms 100 s8
      in (scrchar h (scr_reads s9), s9\<lparr>scr_reads := Suc (scr_reads s9)\<rparr>))"

text \<open>
  A store past the end of an array is undefined behaviour in C: nothing can be said about
  what the program does after it. A run that makes such a store ends there in the model,
  as an error value that keeps the index and the state reached, the offending store
  included in its trace. \<open>final\<close> is the state a run ends in, either way.
\<close>

datatype error = StoreOutOfBounds nat

type_synonym 'a outcome = "(error \<times> machine) + ('a \<times> machine)"

definition final :: "'a outcome \<Rightarrow> machine" where
  "final r = (case r of Inl (e, s) \<Rightarrow> s | Inr (x, s) \<Rightarrow> s)"

text \<open>
  The read-back loop of \<^verbatim>\<open>vdp_ota_present\<close>:
  \<^verbatim>\<open>for(n = 0; n < UNLOCKMATCHLENGTH+1; n++) test[n] = getCharAt(n+8, 3);\<close>
  The local array \<^verbatim>\<open>char test[UNLOCKMATCHLENGTH]\<close> is a list of that length. C does not
  check the index: the store \<^verbatim>\<open>test[n] = c\<close> is recorded in the trace, and where \<open>n\<close> is
  not below the length of the array the behaviour is undefined from there on.
\<close>

function test_loop :: "hw \<Rightarrow> nat \<Rightarrow> byte list \<Rightarrow> machine \<Rightarrow> byte list outcome" where
  "test_loop h n test s =
     (if n < UNLOCKMATCHLENGTH + 1
      then (case getCharAt h (n + 8) 3 s of
              (c, s1) \<Rightarrow>
                if n < length test
                then test_loop h (Suc n) (test[n := c]) (emit (StoreTest n c) s1)
                else Inl (StoreOutOfBounds n, emit (StoreTest n c) s1))
      else Inr (test, s))"
  by pat_completeness auto
termination
  by (relation "measure (\<lambda>(h, n, test, s). UNLOCKMATCHLENGTH + 1 - n)") auto

text \<open>\<^verbatim>\<open>memcmp(test, "unlocked!", UNLOCKMATCHLENGTH) == 0\<close>\<close>

definition memcmp_eq :: "byte list \<Rightarrow> string \<Rightarrow> nat \<Rightarrow> bool" where
  "memcmp_eq p str n = (take n p = map of_char (take n str))"

text \<open>
  The array is not initialised; no element is read before it has been stored, so the
  bytes it starts with do not matter.
\<close>

definition vdp_ota_present :: "hw \<Rightarrow> machine \<Rightarrow> bool outcome" where
  "vdp_ota_present h s =
     (let s1 = putch 23 s;
          s2 = putch 0 s1;
          s3 = putch 0xA1 s2;
          s4 = putch 0 s3;
          s5 = outstring ''unlock'' s4
      in case test_loop h 0 (replicate UNLOCKMATCHLENGTH 0) s5 of
           Inl e \<Rightarrow> Inl e
         | Inr (test, s6) \<Rightarrow> Inr (memcmp_eq test ''unlocked!'' UNLOCKMATCHLENGTH, s6))"


section \<open>Staging and flash programming\<close>

subsection \<open>Memory, file and checksum primitives\<close>

fun write_bytes :: "memory \<Rightarrow> nat \<Rightarrow> byte list \<Rightarrow> memory" where
  "write_bytes m a [] = m"
| "write_bytes m a (b # bs) = write_bytes (m(u24 a := b)) (Suc a) bs"

definition read_bytes :: "memory \<Rightarrow> nat \<Rightarrow> nat \<Rightarrow> byte list" where
  "read_bytes m a n = map (\<lambda>i. m (u24 (a + i))) [0..<n]"

text \<open>
  \<^verbatim>\<open>fread(ptr, 1, n, mosfilehandle)\<close> moves the next (at most \<open>n\<close>) bytes of the file to
  memory at \<open>ptr\<close> and returns how many they were; 0 at the end of the file or when the
  source has become unreadable.
\<close>

definition fread :: "nat \<Rightarrow> nat \<Rightarrow> machine \<Rightarrow> nat \<times> machine" where
  "fread ptr n s =
     (let chunk = take n (mosfile s)
      in (length chunk,
          s\<lparr>mem := write_bytes (mem s) ptr chunk, mosfile := drop n (mosfile s)\<rparr>))"

text \<open>The checksum module keeps one global accumulator (see the section on the checksum).\<close>

definition crc32_initialize :: "machine \<Rightarrow> machine" where
  "crc32_initialize s = emit Crc32Initialize (s\<lparr>crc := crc32_init\<rparr>)"

definition crc32 :: "nat \<Rightarrow> nat \<Rightarrow> machine \<Rightarrow> machine" where
  "crc32 ptr len s =
     emit (Crc32 ptr len) (s\<lparr>crc := crc32_feed (crc s) (read_bytes (mem s) ptr len)\<rparr>)"

definition crc32_finalize :: "machine \<Rightarrow> u32 \<times> machine" where
  "crc32_finalize s = (crc32_final (crc s), emit (Crc32Finalize (crc32_final (crc s))) s)"

subsection \<open>Hardware primitives\<close>

definition di :: "machine \<Rightarrow> machine" where
  "di s = emit DisableInterrupts (s\<lparr>interrupts := False\<rparr>)"

definition enableFlashKeyRegister :: "machine \<Rightarrow> machine" where
  "enableFlashKeyRegister s = emit EnableFlashKey s"

definition io_write :: "ioreg \<Rightarrow> byte \<Rightarrow> machine \<Rightarrow> machine" where
  "io_write r v s = emit (IOWrite r v) s"

definition fastmemcpy_call :: "hw \<Rightarrow> nat \<Rightarrow> nat \<Rightarrow> nat \<Rightarrow> machine \<Rightarrow> machine" where
  "fastmemcpy_call h dst src n s =
     emit (FastMemcpy dst src n) (s\<lparr>mem := fastmemcpy h dst src n (mem s)\<rparr>)"

text \<open>
  \<^verbatim>\<open>while(IO(FLASH_PGCTL) & 0x02);\<close> reads the register until bit 1 is clear. Whether
  it ever is depends on the hardware, so the loop is a partial function: \<open>None\<close> when the
  bit never clears.
\<close>

definition read_pgctl :: "hw \<Rightarrow> machine \<Rightarrow> byte \<times> machine" where
  "read_pgctl h s =
     (pgctl h (pgctl_reads s),
      emit (IORead FLASH_PGCTL (pgctl h (pgctl_reads s))) (s\<lparr>pgctl_reads := Suc (pgctl_reads s)\<rparr>))"

partial_function (option) wait_erase :: "hw \<Rightarrow> machine \<Rightarrow> machine option" where
  "wait_erase h s =
     (case read_pgctl h s of
        (v, s1) \<Rightarrow> if v AND 0x02 \<noteq> 0 then wait_erase h s1 else Some s1)"

subsection \<open>The phases of \<^verbatim>\<open>update_mos\<close>\<close>

text \<open>
  The staging loop:
  \<^verbatim>\<open>while((bytesread = fread(ptr, 1, BLOCKSIZE, mosfilehandle)) > 0) {
      crc32(ptr, bytesread); ptr += bytesread; putch('.'); }\<close>
\<close>

function stage_loop :: "nat \<Rightarrow> machine \<Rightarrow> machine" where
  "stage_loop ptr s =
     (case fread ptr BLOCKSIZE s of
        (bytesread, s1) \<Rightarrow>
          if bytesread > 0
          then stage_loop (u24 (ptr + bytesread)) (putch 0x2E (crc32 ptr bytesread s1))
          else s1)"
  by pat_completeness auto
termination
  by (relation "measure (\<lambda>(ptr, s). length (mosfile s))")
     (auto simp: fread_def Let_def BLOCKSIZE_def putch_def crc32_def emit_def)

text \<open>
  The erase loop:
  \<^verbatim>\<open>for(counter = 0; counter < FLASHPAGES; counter++) {
      IO(FLASH_PAGE) = counter; IO(FLASH_PGCTL) = 0x02; while(IO(FLASH_PGCTL) & 0x02); }\<close>
  The I/O port is 8 bits wide; \<open>counter\<close> stays below 128, so \<open>counter++\<close> cannot wrap.
\<close>

function erase_loop :: "hw \<Rightarrow> nat \<Rightarrow> machine \<Rightarrow> machine option" where
  "erase_loop h counter s =
     (if counter < FLASHPAGES
      then (let s1 = io_write FLASH_PAGE (of_nat counter) s;
                s2 = io_write FLASH_PGCTL 0x02 s1;
                s3 = s2\<lparr>mem := flash_erase h (counter mod 256) (mem s2)\<rparr>
            in case wait_erase h s3 of
                 None \<Rightarrow> None
               | Some s4 \<Rightarrow> erase_loop h (Suc counter) s4)
      else Some s)"
  by pat_completeness auto
termination
  by (relation "measure (\<lambda>(h, counter, s). FLASHPAGES - counter)") auto

text \<open>Decimal output of \<^verbatim>\<open>sprintf\<close>: \<^verbatim>\<open>%d\<close> and \<^verbatim>\<open>%03d\<close> of a non-negative value.\<close>

function dec :: "nat \<Rightarrow> string" where
  "dec n = (if n < 10 then [char_of (48 + n)] else dec (n div 10) @ [char_of (48 + n mod 10)])"
  by pat_completeness auto
termination
  by (relation "measure id") auto

definition dec03 :: "nat \<Rightarrow> string" where
  "dec03 n = replicate (3 - length (dec n)) (CHR ''0'') @ dec n"

text \<open>
  The page loop:
  \<^verbatim>\<open>for(counter = 0; counter < pagemax; counter++) {
      sprintf(message,"\rWriting flash page %03d/%03d", counter+1, pagemax); outstring(message);
      if(counter == (pagemax - 1)) fastmemcpy(addressto,addressfrom,lastpagebytes);
      else fastmemcpy(addressto,addressfrom,PAGESIZE);
      addressto += PAGESIZE; addressfrom += PAGESIZE; }\<close>
  \<open>pagemax\<close> is at most \<open>2 ^ 24 div 1024 + 1\<close>, so \<open>counter++\<close> cannot wrap;
  the two addresses and \<open>pagemax - 1\<close> are computed modulo \<open>2 ^ 24\<close>.
\<close>

function program_loop ::
  "hw \<Rightarrow> nat \<Rightarrow> nat \<Rightarrow> nat \<Rightarrow> nat \<Rightarrow> nat \<Rightarrow> machine \<Rightarrow> machine" where
  "program_loop h counter pagemax lastpagebytes addressto addressfrom s =
     (if counter < pagemax
      then (let s1 = outstring (CR # ''Writing flash page '' @ dec03 (counter + 1) @ ''/'' @ dec03 pagemax) s;
                s2 = (if counter = u24 (pagemax + 16777215)
                      then fastmemcpy_call h addressto addressfrom lastpagebytes s1
                      else fastmemcpy_call h addressto addressfrom PAGESIZE s1)
            in program_loop h (Suc counter) pagemax lastpagebytes
                 (u24 (addressto + PAGESIZE)) (u24 (addressfrom + PAGESIZE)) s2)
      else s)"
  by pat_completeness auto
termination
  by (relation "measure (\<lambda>(h, counter, pagemax, l, t, f, s). pagemax - counter)") auto

text \<open>
  The number of pages and the length of the last one:
  \<^verbatim>\<open>pagemax = filesize/PAGESIZE;
  if(filesize%PAGESIZE) { pagemax += 1; lastpagebytes = filesize%PAGESIZE; }
  else lastpagebytes = PAGESIZE;\<close>
\<close>

definition page_layout :: "nat \<Rightarrow> nat \<times> nat" where
  "page_layout filesize =
     (if filesize mod PAGESIZE \<noteq> 0
      then (u24 (filesize div PAGESIZE + 1), filesize mod PAGESIZE)
      else (filesize div PAGESIZE, PAGESIZE))"

text \<open>
  One pass through the body of \<^verbatim>\<open>while((!success) && (attempt < 3))\<close>, up to and
  without \<^verbatim>\<open>attempt++\<close>: the result is the new value of \<open>success\<close>.
\<close>

definition flash_attempt :: "hw \<Rightarrow> nat \<Rightarrow> nat \<Rightarrow> machine \<Rightarrow> (bool \<times> machine) option" where
  "flash_attempt h filesize attempt s =
     (let s1 = (if attempt > 0
                then outstring (''Retry attempt #'' @ dec attempt @ [CR, LF]) s
                else s);
          s2 = outstring ''Erasing flash... '' s1;
          s3 = enableFlashKeyRegister s2;
          s4 = io_write FLASH_PROT 0 s3;
          s5 = enableFlashKeyRegister s4;
          s6 = io_write FLASH_FDIV 0x5F s5
      in case erase_loop h 0 s6 of
           None \<Rightarrow> None
         | Some s7 \<Rightarrow>
             (let s8 = outstring [CR, LF] s7;
                  (pagemax, lastpagebytes) = page_layout filesize;
                  s9 = program_loop h 0 pagemax lastpagebytes FLASHSTART BUFFER1 s8;
                  s10 = enableFlashKeyRegister s9;
                  s11 = io_write FLASH_PROT 0xFF s10;
                  s12 = outstring ([CR, LF] @ ''Checking CRC... '') s11;
                  s13 = crc32_initialize s12;
                  s14 = crc32 FLASHSTART filesize s13
              in case crc32_finalize s14 of
                   (crcresult, s15) \<Rightarrow>
                     if crcresult = moscrc s15
                     then Some (True, outstring (''OK'' @ [CR, LF]) s15)
                     else Some (False, outstring (''ERROR'' @ [CR, LF]) s15)))"

text \<open>The retry loop, with \<^verbatim>\<open>attempt++\<close> at the end of each pass.\<close>

function flash_loop ::
  "hw \<Rightarrow> nat \<Rightarrow> bool \<Rightarrow> nat \<Rightarrow> machine \<Rightarrow> (bool \<times> machine) option" where
  "flash_loop h filesize success attempt s =
     (if \<not> success \<and> attempt < 3
      then (case flash_attempt h filesize attempt s of
              None \<Rightarrow> None
            | Some (success', s1) \<Rightarrow> flash_loop h filesize success' (Suc attempt) s1)
      else Some (success, s))"
  by pat_completeness auto
termination
  by (relation "measure (\<lambda>(h, filesize, success, attempt, s). 3 - attempt)") auto

definition update_mos :: "hw \<Rightarrow> machine \<Rightarrow> (bool \<times> machine) option" where
  "update_mos h s =
     (let s1 = putch 12 s;
          s2 = print_version s1;
          s3 = outstring (''Programming MOS firmware to ez80 flash...'' @ [CR, LF, CR, LF]) s2;
          s4 = outstring ''Reading MOS firmware'' s3;
          filesize = u24 (getFileSize h (mos_fhandle s4));
          s5 = crc32_initialize s4;
          s6 = stage_loop BUFFER1 s5
      in case crc32_finalize s6 of
           (crcresult, s7) \<Rightarrow>
             (let s8 = outstring [CR, LF] s7
              in if crcresult \<noteq> moscrc s8
                 then Some (False, outstring (''Error reading file to memory'' @ [CR, LF]) s8)
                 else (let s9 = outstring [CR, LF] s8;
                           s10 = di s9
                       in case flash_loop h filesize False 0 s10 of
                            None \<Rightarrow> None
                          | Some (success, s11) \<Rightarrow> Some (success, outstring [CR, LF] s11))))"

section \<open>Observations on traces\<close>

text \<open>
  The properties below are stated on the events a run adds to the trace, without the
  console output (\<open>ops\<close>).
\<close>

fun is_console :: "event \<Rightarrow> bool" where
  "is_console (Putch c) = True"
| "is_console (Delay n) = True"
| "is_console e = False"

definition ops :: "event list \<Rightarrow> event list" where
  "ops es = filter (\<lambda>e. \<not> is_console e) es"

definition events_since :: "machine \<Rightarrow> machine \<Rightarrow> event list" where
  "events_since s s' = drop (length (trace s)) (trace s')"

fun is_crc_event :: "event \<Rightarrow> bool" where
  "is_crc_event Crc32Initialize = True"
| "is_crc_event (Crc32 a n) = True"
| "is_crc_event (Crc32Finalize v) = True"
| "is_crc_event e = False"

text \<open>Operations on the flash: the key register, the controller's registers, the bulk copy.\<close>

fun is_flash_op :: "event \<Rightarrow> bool" where
  "is_flash_op EnableFlashKey = True"
| "is_flash_op (IOWrite r v) = True"
| "is_flash_op (IORead r v) = True"
| "is_flash_op (FastMemcpy d src n) = True"
| "is_flash_op e = False"

fun is_copy :: "event \<Rightarrow> bool" where
  "is_copy (FastMemcpy d src n) = True"
| "is_copy e = False"

text \<open>Commands to the erase machinery: page selection and the page-erase bit.\<close>

fun is_erase_cmd :: "event \<Rightarrow> bool" where
  "is_erase_cmd (IOWrite FLASH_PAGE v) = True"
| "is_erase_cmd (IOWrite FLASH_PGCTL v) = True"
| "is_erase_cmd (IORead FLASH_PGCTL v) = True"
| "is_erase_cmd e = False"

text \<open>What follows the \<^verbatim>\<open>di\<close> instruction: the flash-programming attempts.\<close>

fun after_di :: "event list \<Rightarrow> event list" where
  "after_di [] = []"
| "after_di (e # es) = (if e = DisableInterrupts then es else after_di es)"

fun finalized :: "event list \<Rightarrow> u32 list" where
  "finalized [] = []"
| "finalized (Crc32Finalize v # es) = v # finalized es"
| "finalized (e # es) = finalized es"

text \<open>The checksums the verify steps of a run computed, in order.\<close>

definition verify_crcs :: "event list \<Rightarrow> u32 list" where
  "verify_crcs es = finalized (after_di es)"

text \<open>Destination, source and length of the bulk copies, in order.\<close>

fun copies :: "event list \<Rightarrow> (nat \<times> nat \<times> nat) list" where
  "copies [] = []"
| "copies (FastMemcpy d src n # es) = (d, src, n) # copies es"
| "copies (e # es) = copies es"

fun stores :: "event list \<Rightarrow> nat list" where
  "stores [] = []"
| "stores (StoreTest n c # es) = n # stores es"
| "stores (e # es) = stores es"


text \<open>The flash controller finishes every erase: the busy bit is clear again and again.\<close>

definition erase_completes :: "hw \<Rightarrow> bool" where
  "erase_completes h = (\<forall>n. \<exists>k\<ge>n. pgctl h k AND 0x02 = 0)"

text \<open>The checksum of a byte sequence, and of the first \<open>n\<close> bytes of the flash.\<close>

definition crc32_of :: "byte list \<Rightarrow> u32" where
  "crc32_of bs = crc32_final (crc32_feed crc32_init bs)"

definition image_crc :: "memory \<Rightarrow> nat \<Rightarrow> u32" where
  "image_crc m n = crc32_of (read_bytes m FLASHSTART n)"

subsection \<open>One attempt in closed form\<close>

text \<open>
  The operations of one attempt: unprotect, erase every page (\<open>polls p\<close> are the values
  read from \<^verbatim>\<open>FLASH_PGCTL\<close> while waiting for page \<open>p\<close>), program the pages, protect,
  verify (\<open>v\<close> is the checksum read back).
\<close>

definition program_copies :: "nat \<Rightarrow> (nat \<times> nat \<times> nat) list" where
  "program_copies filesize =
     map (\<lambda>i. (u24 (FLASHSTART + i * PAGESIZE), u24 (BUFFER1 + i * PAGESIZE),
               if i = u24 (fst (page_layout filesize) + 16777215)
               then snd (page_layout filesize) else PAGESIZE))
       [0..<fst (page_layout filesize)]"

definition erase_ops :: "(nat \<Rightarrow> byte list) \<Rightarrow> event list" where
  "erase_ops polls =
     concat (map (\<lambda>p. [IOWrite FLASH_PAGE (of_nat p), IOWrite FLASH_PGCTL 0x02]
                        @ map (IORead FLASH_PGCTL) (polls p)) [0..<FLASHPAGES])"

definition polls_ok :: "byte list \<Rightarrow> bool" where
  "polls_ok w = (w \<noteq> [] \<and> last w AND 0x02 = 0 \<and> (\<forall>v\<in>set (butlast w). v AND 0x02 \<noteq> 0))"

definition attempt_ops :: "nat \<Rightarrow> (nat \<Rightarrow> byte list) \<Rightarrow> u32 \<Rightarrow> event list" where
  "attempt_ops filesize polls v =
     [EnableFlashKey, IOWrite FLASH_PROT 0, EnableFlashKey, IOWrite FLASH_FDIV 0x5F]
     @ erase_ops polls
     @ map (\<lambda>(d, src, n). FastMemcpy d src n) (program_copies filesize)
     @ [EnableFlashKey, IOWrite FLASH_PROT 0xFF,
        Crc32Initialize, Crc32 FLASHSTART filesize, Crc32Finalize v]"

definition erase_mem :: "hw \<Rightarrow> memory \<Rightarrow> memory" where
  "erase_mem h m = fold (\<lambda>p. flash_erase h (p mod 256)) [0..<FLASHPAGES] m"

definition attempt_mem :: "hw \<Rightarrow> nat \<Rightarrow> memory \<Rightarrow> memory" where
  "attempt_mem h filesize m =
     fold (\<lambda>(d, src, n). fastmemcpy h d src n) (program_copies filesize) (erase_mem h m)"

text \<open>The memory after \<open>n\<close> attempts.\<close>

primrec mem_after :: "hw \<Rightarrow> nat \<Rightarrow> nat \<Rightarrow> memory \<Rightarrow> memory" where
  "mem_after h filesize 0 m = m"
| "mem_after h filesize (Suc n) m = mem_after h filesize n (attempt_mem h filesize m)"

section \<open>Sample environments\<close>

text \<open>
  A flash that neither erases nor takes data, with a controller that reports every erase
  as finished at once, and a two-byte image \<^verbatim>\<open>"12"\<close> whose checksum is the expected one.
\<close>

definition stuck_flash :: hw where
  "stuck_flash =
     \<lparr>flash_erase = (\<lambda>p m. m), fastmemcpy = (\<lambda>d src n m. m), pgctl = (\<lambda>k. 0),
      scrchar = (\<lambda>k. 0x20), getFileSize = (\<lambda>f. 2)\<rparr>"

definition sample_state :: machine where
  "sample_state =
     \<lparr>mem = (\<lambda>a. 0xFF), interrupts = True, crc = 0, moscrc = 0x4F5344CD,
      mosfile = [0x31, 0x32], mos_fhandle = 1, vdp_fhandle = 2, pgctl_reads = 0, scr_reads = 0,
      trace = []\<rparr>"

text \<open>The same state, expecting another checksum than the image has.\<close>

definition corrupt_state :: machine where
  "corrupt_state = sample_state\<lparr>moscrc := 0\<rparr>"

text \<open>A buffer that holds the magic number of a coprocessor image.\<close>

definition esp32_image :: "nat \<Rightarrow> byte" where
  "esp32_image n =
     (if n = 0x20 then 0x32 else if n = 0x21 then 0x54 else if n = 0x22 then 0xCD
      else if n = 0x23 then 0xAB else 0xE9)"

text \<open>What \<open>getCharAt x y\<close> sends: the VDU command 23, 0, 131 with the coordinates.\<close>

definition screen_query :: "nat \<Rightarrow> nat \<Rightarrow> event list" where
  "screen_query x y =
     [Delay 20, Putch 23, Putch 0, Putch 131,
      Putch (of_nat (x mod 256)), Putch (of_nat ((x div 256) mod 256)),
      Putch (of_nat (y mod 256)), Putch (of_nat ((y div 256) mod 256)), Delay 100]"

text \<open>The events of the read-back loop from index \<open>n\<close> on, when \<open>k\<close> screen characters have been read before.\<close>

definition readback :: "hw \<Rightarrow> nat \<Rightarrow> nat \<Rightarrow> event list" where
  "readback h k n =
     concat (map (\<lambda>i. screen_query (i + 8) 3 @ [StoreTest i (scrchar h (k + (i - n)))])
       [n..<UNLOCKMATCHLENGTH + 1])"


section \<open>Closed forms of the loops\<close>

declare erase_loop.simps [simp del] program_loop.simps [simp del] stage_loop.simps [simp del]
  flash_loop.simps [simp del] test_loop.simps [simp del] dec.simps [simp del]

lemma outstring_eq:
  "outstring str s = s\<lparr>trace := trace s @ map (\<lambda>ch. Putch (of_char ch)) str\<rparr>"
  unfolding outstring_def
  by (induction str arbitrary: s) (simp_all add: putch_def emit_def)

lemma ops_append: "ops (xs @ ys) = ops xs @ ops ys"
  by (simp add: ops_def)

lemma ops_putchs: "ops (map (\<lambda>ch. Putch (of_char ch)) str) = []"
  by (induction str) (simp_all add: ops_def)

lemma wait_erase_Some:
  "pgctl h (pgctl_reads s + n) AND 0x02 = 0 \<Longrightarrow>
   \<exists>w. polls_ok w \<and>
       wait_erase h s = Some (s\<lparr>pgctl_reads := pgctl_reads s + length w,
                                 trace := trace s @ map (IORead FLASH_PGCTL) w\<rparr>)"
proof (induction n arbitrary: s)
  case 0
  then have "wait_erase h s = Some (s\<lparr>pgctl_reads := pgctl_reads s + length [pgctl h (pgctl_reads s)],
               trace := trace s @ map (IORead FLASH_PGCTL) [pgctl h (pgctl_reads s)]\<rparr>)"
    by (subst wait_erase.simps) (simp add: read_pgctl_def emit_def)
  moreover have "polls_ok [pgctl h (pgctl_reads s)]"
    using 0 by (simp add: polls_ok_def)
  ultimately show ?case by blast
next
  case (Suc n)
  let ?v = "pgctl h (pgctl_reads s)"
  let ?s1 = "snd (read_pgctl h s)"
  show ?case
  proof (cases "?v AND 0x02 = 0")
    case True
    then have "wait_erase h s = Some (s\<lparr>pgctl_reads := pgctl_reads s + length [?v],
               trace := trace s @ map (IORead FLASH_PGCTL) [?v]\<rparr>)"
      by (subst wait_erase.simps) (simp add: read_pgctl_def emit_def)
    moreover have "polls_ok [?v]"
      using True by (simp add: polls_ok_def)
    ultimately show ?thesis by blast
  next
    case False
    have "pgctl h (pgctl_reads ?s1 + n) AND 0x02 = 0"
      using Suc.prems by (simp add: read_pgctl_def emit_def)
    from Suc.IH [OF this] obtain w where w: "polls_ok w"
      "wait_erase h ?s1 = Some (?s1\<lparr>pgctl_reads := pgctl_reads ?s1 + length w,
                                 trace := trace ?s1 @ map (IORead FLASH_PGCTL) w\<rparr>)"
      by blast
    have "wait_erase h s = wait_erase h ?s1"
      using False by (subst wait_erase.simps) (simp add: read_pgctl_def)
    with w(2) have "wait_erase h s = Some (s\<lparr>pgctl_reads := pgctl_reads s + length (?v # w),
               trace := trace s @ map (IORead FLASH_PGCTL) (?v # w)\<rparr>)"
      by (simp add: read_pgctl_def emit_def)
    moreover have "polls_ok (?v # w)"
      using w(1) False by (auto simp: polls_ok_def)
    ultimately show ?thesis by blast
  qed
qed

lemma wait_erase_completes:
  assumes "erase_completes h"
  shows "\<exists>w. polls_ok w \<and>
       wait_erase h s = Some (s\<lparr>pgctl_reads := pgctl_reads s + length w,
                                 trace := trace s @ map (IORead FLASH_PGCTL) w\<rparr>)"
proof -
  from assms obtain k where "k \<ge> pgctl_reads s" "pgctl h k AND 0x02 = 0"
    unfolding erase_completes_def by blast
  then have "pgctl h (pgctl_reads s + (k - pgctl_reads s)) AND 0x02 = 0" by simp
  then show ?thesis by (rule wait_erase_Some)
qed


lemma erase_loop_eq:
  assumes "erase_completes h"
  shows "\<exists>polls k. (\<forall>p. c \<le> p \<and> p < FLASHPAGES \<longrightarrow> polls_ok (polls p)) \<and>
     erase_loop h c s = Some (s\<lparr>mem := fold (\<lambda>p. flash_erase h (p mod 256)) [c..<FLASHPAGES] (mem s),
        pgctl_reads := k,
        trace := trace s @ concat (map (\<lambda>p. [IOWrite FLASH_PAGE (of_nat p), IOWrite FLASH_PGCTL 0x02]
                        @ map (IORead FLASH_PGCTL) (polls p)) [c..<FLASHPAGES])\<rparr>)"
proof (induction "FLASHPAGES - c" arbitrary: c s)
  case 0
  then have c: "\<not> c < FLASHPAGES" by simp
  then have run: "erase_loop h c s = Some s" by (subst erase_loop.simps) simp
  have nil: "[c..<FLASHPAGES] = []" using c by simp
  show ?case
    unfolding run nil using c
    by (intro exI [of _ "\<lambda>p. []"] exI [of _ "pgctl_reads s"]) auto
next
  case (Suc n)
  then have c: "c < FLASHPAGES" by simp
  define s3 where "s3 = (io_write FLASH_PGCTL 0x02 (io_write FLASH_PAGE (of_nat c) s))
                          \<lparr>mem := flash_erase h (c mod 256) (mem s)\<rparr>"
  from wait_erase_completes [OF assms, of s3] obtain w where w: "polls_ok w"
    "wait_erase h s3 = Some (s3\<lparr>pgctl_reads := pgctl_reads s3 + length w,
                                 trace := trace s3 @ map (IORead FLASH_PGCTL) w\<rparr>)"
    by blast
  define s4 where "s4 = s3\<lparr>pgctl_reads := pgctl_reads s3 + length w,
                                 trace := trace s3 @ map (IORead FLASH_PGCTL) w\<rparr>"
  have "n = FLASHPAGES - Suc c" using Suc.hyps(2) by simp
  from Suc.hyps(1) [OF this, of s4] obtain polls k where
    polls: "\<forall>p. Suc c \<le> p \<and> p < FLASHPAGES \<longrightarrow> polls_ok (polls p)" and
    rec: "erase_loop h (Suc c) s4 = Some (s4\<lparr>mem := fold (\<lambda>p. flash_erase h (p mod 256)) [Suc c..<FLASHPAGES] (mem s4),
        pgctl_reads := k,
        trace := trace s4 @ concat (map (\<lambda>p. [IOWrite FLASH_PAGE (of_nat p), IOWrite FLASH_PGCTL 0x02]
                        @ map (IORead FLASH_PGCTL) (polls p)) [Suc c..<FLASHPAGES])\<rparr>)"
    by blast
  let ?polls = "polls(c := w)"
  have step: "erase_loop h c s = erase_loop h (Suc c) s4"
    using c w(2) by (subst erase_loop.simps) (simp add: Let_def s3_def s4_def io_write_def emit_def)
  have same: "map (\<lambda>p. [IOWrite FLASH_PAGE (of_nat p), IOWrite FLASH_PGCTL 0x02]
                        @ map (IORead FLASH_PGCTL) (?polls p)) [Suc c..<FLASHPAGES]
            = map (\<lambda>p. [IOWrite FLASH_PAGE (of_nat p), IOWrite FLASH_PGCTL 0x02]
                        @ map (IORead FLASH_PGCTL) (polls p)) [Suc c..<FLASHPAGES]"
    by (rule map_cong) auto
  have upt: "[c..<FLASHPAGES] = c # [Suc c..<FLASHPAGES]"
    using c by (simp add: upt_conv_Cons)
  have "erase_loop h c s = Some (s\<lparr>mem := fold (\<lambda>p. flash_erase h (p mod 256)) [c..<FLASHPAGES] (mem s),
        pgctl_reads := k,
        trace := trace s @ concat (map (\<lambda>p. [IOWrite FLASH_PAGE (of_nat p), IOWrite FLASH_PGCTL 0x02]
                        @ map (IORead FLASH_PGCTL) (?polls p)) [c..<FLASHPAGES])\<rparr>)"
    unfolding step rec upt list.map same
    by (simp add: s4_def s3_def io_write_def emit_def)
  moreover have "\<forall>p. c \<le> p \<and> p < FLASHPAGES \<longrightarrow> polls_ok (?polls p)"
    using polls w(1) by (auto simp: le_Suc_eq)
  ultimately show ?case by blast
qed


lemma u24_idem: "a < 16777216 \<Longrightarrow> u24 a = a"
  by (simp add: u24_def)

lemma u24_less: "u24 a < 16777216"
  by (simp add: u24_def)

lemma u24_step:
  "Suc c \<le> i \<Longrightarrow> u24 (u24 (t + p) + (i - Suc c) * p) = u24 (t + (i - c) * p)"
proof -
  assume "Suc c \<le> i"
  then have "i - c = Suc (i - Suc c)" by simp
  then have "t + (i - c) * p = t + p + (i - Suc c) * p" by simp
  then show ?thesis
    unfolding u24_def by (simp add: mod_add_left_eq add.assoc)
qed

lemma program_loop_eq:
  assumes "t < 16777216" "f < 16777216"
  shows "\<exists>es. ops es = map (\<lambda>(d, src, n). FastMemcpy d src n)
              (map (\<lambda>i. (u24 (t + (i - c) * PAGESIZE), u24 (f + (i - c) * PAGESIZE),
                         if i = u24 (pm + 16777215) then l else PAGESIZE)) [c..<pm]) \<and>
     program_loop h c pm l t f s =
       s\<lparr>mem := fold (\<lambda>(d, src, n). fastmemcpy h d src n)
              (map (\<lambda>i. (u24 (t + (i - c) * PAGESIZE), u24 (f + (i - c) * PAGESIZE),
                         if i = u24 (pm + 16777215) then l else PAGESIZE)) [c..<pm]) (mem s),
         trace := trace s @ es\<rparr>"
  using assms
proof (induction "pm - c" arbitrary: c t f s)
  case 0
  then have c: "\<not> c < pm" by simp
  then have run: "program_loop h c pm l t f s = s" by (subst program_loop.simps) simp
  have nil: "[c..<pm] = []" using c by simp
  show ?case unfolding run nil
    by (intro exI [of _ "[]"]) (simp add: ops_def)
next
  case (Suc n)
  then have c: "c < pm" by simp
  let ?len = "if c = u24 (pm + 16777215) then l else PAGESIZE"
  let ?msg = "CR # ''Writing flash page '' @ dec03 (c + 1) @ ''/'' @ dec03 pm"
  define s2 where "s2 = fastmemcpy_call h t f ?len (outstring ?msg s)"
  let ?cs = "\<lambda>c t f. map (\<lambda>i. (u24 (t + (i - c) * PAGESIZE), u24 (f + (i - c) * PAGESIZE),
                         if i = u24 (pm + 16777215) then l else PAGESIZE)) [c..<pm]"
  have n: "n = pm - Suc c" using Suc.hyps(2) by simp
  from Suc.hyps(1) [OF n u24_less u24_less, of "t + PAGESIZE" "f + PAGESIZE" s2]
  obtain es where es: "ops es = map (\<lambda>(d, src, n). FastMemcpy d src n)
        (?cs (Suc c) (u24 (t + PAGESIZE)) (u24 (f + PAGESIZE)))"
    and rec: "program_loop h (Suc c) pm l (u24 (t + PAGESIZE)) (u24 (f + PAGESIZE)) s2 =
       s2\<lparr>mem := fold (\<lambda>(d, src, n). fastmemcpy h d src n)
              (?cs (Suc c) (u24 (t + PAGESIZE)) (u24 (f + PAGESIZE))) (mem s2),
         trace := trace s2 @ es\<rparr>"
    by blast
  have step: "program_loop h c pm l t f s =
      program_loop h (Suc c) pm l (u24 (t + PAGESIZE)) (u24 (f + PAGESIZE)) s2"
    using c by (subst program_loop.simps) (simp add: Let_def s2_def)
  have tail: "?cs (Suc c) (u24 (t + PAGESIZE)) (u24 (f + PAGESIZE))
      = map (\<lambda>i. (u24 (t + (i - c) * PAGESIZE), u24 (f + (i - c) * PAGESIZE),
                         if i = u24 (pm + 16777215) then l else PAGESIZE)) [Suc c..<pm]"
    by (rule map_cong) (simp_all add: u24_step)
  have cs: "?cs c t f = (t, f, ?len) # ?cs (Suc c) (u24 (t + PAGESIZE)) (u24 (f + PAGESIZE))"
    unfolding tail using c Suc.prems by (simp add: upt_conv_Cons u24_idem)
  let ?es = "map (\<lambda>ch. Putch (of_char ch)) ?msg @ FastMemcpy t f ?len # es"
  have "ops (FastMemcpy t f ?len # es) = FastMemcpy t f ?len # ops es"
    by (simp add: ops_def)
  then have "ops ?es = FastMemcpy t f ?len # ops es"
    by (simp only: ops_append ops_putchs append_Nil)
  then have "ops ?es = map (\<lambda>(d, src, n). FastMemcpy d src n) (?cs c t f)"
    unfolding cs es by simp
  moreover have "program_loop h c pm l t f s =
       s\<lparr>mem := fold (\<lambda>(d, src, n). fastmemcpy h d src n) (?cs c t f) (mem s),
         trace := trace s @ ?es\<rparr>"
    unfolding step rec cs
    by (simp add: s2_def fastmemcpy_call_def emit_def outstring_eq)
  ultimately show ?case by blast
qed


lemma u24_Suc_cong: "u24 a = u24 b \<Longrightarrow> u24 (Suc a) = u24 (Suc b)"
  unfolding u24_def by (metis mod_Suc_eq)

lemma write_bytes_cong: "u24 a = u24 b \<Longrightarrow> write_bytes m a bs = write_bytes m b bs"
proof (induction bs arbitrary: m a b)
  case Nil
  then show ?case by simp
next
  case (Cons x xs)
  from Cons.prems have "u24 (Suc a) = u24 (Suc b)" by (rule u24_Suc_cong)
  then have "write_bytes (m(u24 a := x)) (Suc a) xs = write_bytes (m(u24 a := x)) (Suc b) xs"
    by (rule Cons.IH)
  with Cons.prems show ?case by simp
qed

lemma u24_u24: "u24 (u24 a) = u24 a"
  by (simp add: u24_def)

lemma write_bytes_append:
  "write_bytes m a (xs @ ys) = write_bytes (write_bytes m a xs) (a + length xs) ys"
  by (induction xs arbitrary: m a) simp_all

lemma write_bytes_other:
  "(\<forall>j<length bs. u24 (a + j) \<noteq> x) \<Longrightarrow> write_bytes m a bs x = m x"
proof (induction bs arbitrary: m a)
  case Nil
  then show ?case by simp
next
  case (Cons b bs)
  have "\<forall>j<length bs. u24 (Suc a + j) \<noteq> x"
    using Cons.prems by (metis Suc_less_eq add_Suc_shift length_Cons)
  then have "write_bytes (m(u24 a := b)) (Suc a) bs x = (m(u24 a := b)) x"
    by (rule Cons.IH)
  moreover have "u24 a \<noteq> x" using Cons.prems [rule_format, of 0] by simp
  ultimately show ?case by simp
qed

lemma u24_shift_neq: "0 < d \<Longrightarrow> d < 16777216 \<Longrightarrow> u24 (a + d) \<noteq> u24 a"
proof
  assume d: "0 < d" "d < 16777216" and eq: "u24 (a + d) = u24 a"
  have "a \<le> a + d" by simp
  from mod_eq_dvd_iff_nat [OF this, of 16777216] eq
  have "(16777216::nat) dvd d" by (simp add: u24_def)
  with d show False by (simp add: nat_dvd_not_less)
qed

lemma write_bytes_nth:
  "length bs \<le> 16777216 \<Longrightarrow> j < length bs \<Longrightarrow> write_bytes m a bs (u24 (a + j)) = bs ! j"
proof (induction bs arbitrary: m a j)
  case Nil
  then show ?case by simp
next
  case (Cons b bs)
  show ?case
  proof (cases j)
    case 0
    have "\<forall>k<length bs. u24 (Suc a + k) \<noteq> u24 a"
    proof (intro allI impI)
      fix k assume "k < length bs"
      then have "0 < Suc k" "Suc k < 16777216" using Cons.prems(1) by simp_all
      from u24_shift_neq [OF this, of a] show "u24 (Suc a + k) \<noteq> u24 a" by simp
    qed
    then have "write_bytes (m(u24 a := b)) (Suc a) bs (u24 a) = (m(u24 a := b)) (u24 a)"
      by (rule write_bytes_other)
    with 0 show ?thesis by simp
  next
    case (Suc j')
    then have "j' < length bs" "length bs \<le> 16777216" using Cons.prems by simp_all
    then have "write_bytes (m(u24 a := b)) (Suc a) bs (u24 (Suc a + j')) = bs ! j'"
      by (intro Cons.IH)
    with Suc show ?thesis by simp
  qed
qed

lemma read_write_bytes:
  "length bs \<le> 16777216 \<Longrightarrow> read_bytes (write_bytes m a bs) a (length bs) = bs"
  by (rule nth_equalityI) (simp_all add: read_bytes_def write_bytes_nth)

lemma crc32_feed_append: "crc32_feed acc (xs @ ys) = crc32_feed (crc32_feed acc xs) ys"
  by (simp add: crc32_feed_def)

lemma stage_loop_eq:
  "\<exists>es. (\<forall>e\<in>set (ops es). \<exists>a n. e = Crc32 a n) \<and>
     stage_loop ptr s =
       s\<lparr>mem := write_bytes (mem s) ptr (mosfile s),
         crc := crc32_feed (crc s) (mosfile s),
         mosfile := [],
         trace := trace s @ es\<rparr>"
proof (induction "length (mosfile s)" arbitrary: ptr s rule: less_induct)
  case less
  let ?chunk = "take BLOCKSIZE (mosfile s)"
  let ?rest = "drop BLOCKSIZE (mosfile s)"
  show ?case
  proof (cases "mosfile s = []")
    case True
    then have "stage_loop ptr s = s\<lparr>mem := write_bytes (mem s) ptr (mosfile s),
         crc := crc32_feed (crc s) (mosfile s), mosfile := [], trace := trace s @ []\<rparr>"
      by (subst stage_loop.simps) (simp add: fread_def crc32_feed_def)
    moreover have "\<forall>e\<in>set (ops []). \<exists>a n. e = Crc32 a n" by (simp add: ops_def)
    ultimately show ?thesis by blast
  next
    case False
    then have pos: "0 < length ?chunk" by (simp add: BLOCKSIZE_def)
    have len: "length ?chunk \<le> 16777216" by (simp add: BLOCKSIZE_def)
    define s1 where "s1 = s\<lparr>mem := write_bytes (mem s) ptr ?chunk, mosfile := ?rest\<rparr>"
    define s2 where "s2 = putch 0x2E (crc32 ptr (length ?chunk) s1)"
    have step: "stage_loop ptr s = stage_loop (u24 (ptr + length ?chunk)) s2"
      using pos by (subst stage_loop.simps) (simp add: fread_def Let_def s1_def s2_def)
    have file2: "mosfile s2 = ?rest"
      by (simp add: s2_def s1_def putch_def crc32_def emit_def)
    have "length (mosfile s2) < length (mosfile s)"
      using False by (simp add: file2 BLOCKSIZE_def)
    from less [OF this, of "u24 (ptr + length ?chunk)"] obtain es where
      es: "\<forall>e\<in>set (ops es). \<exists>a n. e = Crc32 a n" and
      rec: "stage_loop (u24 (ptr + length ?chunk)) s2 =
        s2\<lparr>mem := write_bytes (mem s2) (u24 (ptr + length ?chunk)) (mosfile s2),
         crc := crc32_feed (crc s2) (mosfile s2), mosfile := [], trace := trace s2 @ es\<rparr>"
      by blast
    have mem2: "write_bytes (mem s2) (u24 (ptr + length ?chunk)) (mosfile s2)
        = write_bytes (mem s) ptr (mosfile s)"
    proof -
      have m2: "mem s2 = write_bytes (mem s) ptr ?chunk"
        by (simp add: s2_def s1_def putch_def crc32_def emit_def)
      have "write_bytes (mem s2) (u24 (ptr + length ?chunk)) ?rest
          = write_bytes (mem s2) (ptr + length ?chunk) ?rest"
        by (rule write_bytes_cong) (rule u24_u24)
      also have "\<dots> = write_bytes (mem s) ptr (?chunk @ ?rest)"
        unfolding m2 by (rule write_bytes_append [symmetric])
      finally show ?thesis by (simp only: file2 append_take_drop_id)
    qed
    have crc2: "crc32_feed (crc s2) (mosfile s2) = crc32_feed (crc s) (mosfile s)"
    proof -
      have "crc s2 = crc32_feed (crc s) (read_bytes (write_bytes (mem s) ptr ?chunk) ptr (length ?chunk))"
        by (simp add: s2_def s1_def putch_def crc32_def emit_def)
      also have "\<dots> = crc32_feed (crc s) ?chunk"
        by (simp only: read_write_bytes [OF len])
      finally have "crc32_feed (crc s2) (mosfile s2) = crc32_feed (crc s) (?chunk @ ?rest)"
        by (simp only: file2 crc32_feed_append)
      then show ?thesis by simp
    qed
    let ?es = "Crc32 ptr (length ?chunk) # Putch 0x2E # es"
    have "stage_loop ptr s = s\<lparr>mem := write_bytes (mem s) ptr (mosfile s),
         crc := crc32_feed (crc s) (mosfile s), mosfile := [], trace := trace s @ ?es\<rparr>"
      unfolding step rec mem2 crc2
      by (simp add: s2_def s1_def putch_def crc32_def emit_def)
    moreover have "\<forall>e\<in>set (ops ?es). \<exists>a n. e = Crc32 a n"
      using es by (simp add: ops_def)
    ultimately show ?thesis by blast
  qed
qed


lemma ops_Nil: "ops [] = []"
  by (simp add: ops_def)

lemma ops_Cons: "ops (e # es) = (if is_console e then ops es else e # ops es)"
  by (simp add: ops_def)

lemma ops_erase_ops: "ops (erase_ops polls) = erase_ops polls"
  by (simp add: ops_def erase_ops_def filter_concat filter_map comp_def)

lemma flash_attempt_eq:
  assumes "erase_completes h"
  shows "\<exists>polls k es. (\<forall>p<FLASHPAGES. polls_ok (polls p)) \<and>
     ops es = attempt_ops fs polls (image_crc (attempt_mem h fs (mem s)) fs) \<and>
     flash_attempt h fs att s =
       Some (image_crc (attempt_mem h fs (mem s)) fs = moscrc s,
             s\<lparr>mem := attempt_mem h fs (mem s),
               crc := crc32_feed crc32_init (read_bytes (attempt_mem h fs (mem s)) FLASHSTART fs),
               pgctl_reads := k,
               trace := trace s @ es\<rparr>)"
proof -
  let ?retry = "if att > 0 then map (\<lambda>ch. Putch (of_char ch)) (''Retry attempt #'' @ dec att @ [CR, LF]) else []"
  define s6 where "s6 = io_write FLASH_FDIV 0x5F (enableFlashKeyRegister
      (io_write FLASH_PROT 0 (enableFlashKeyRegister (outstring ''Erasing flash... ''
         (if att > 0 then outstring (''Retry attempt #'' @ dec att @ [CR, LF]) s else s)))))"
  let ?pre = "?retry @ map (\<lambda>ch. Putch (of_char ch)) ''Erasing flash... ''
        @ [EnableFlashKey, IOWrite FLASH_PROT 0, EnableFlashKey, IOWrite FLASH_FDIV 0x5F]"
  have s6: "s6 = s\<lparr>trace := trace s @ ?pre\<rparr>"
    by (simp add: s6_def io_write_def enableFlashKeyRegister_def emit_def outstring_eq)
  from erase_loop_eq [OF assms, of 0 s6] obtain polls k where
    polls: "\<forall>p<FLASHPAGES. polls_ok (polls p)" and
    erase: "erase_loop h 0 s6 = Some (s6\<lparr>mem := erase_mem h (mem s6), pgctl_reads := k,
        trace := trace s6 @ erase_ops polls\<rparr>)"
    unfolding erase_mem_def erase_ops_def by auto
  define s8 where "s8 = outstring [CR, LF] (s6\<lparr>mem := erase_mem h (mem s6), pgctl_reads := k,
        trace := trace s6 @ erase_ops polls\<rparr>)"
  have s8: "s8 = s\<lparr>mem := erase_mem h (mem s), pgctl_reads := k,
        trace := trace s @ ?pre @ erase_ops polls @ map (\<lambda>ch. Putch (of_char ch)) [CR, LF]\<rparr>"
    by (simp add: s8_def s6 outstring_eq)
  obtain pm l where pl: "page_layout fs = (pm, l)" by (cases "page_layout fs")
  have "FLASHSTART < 16777216" "BUFFER1 < 16777216"
    by (simp_all add: FLASHSTART_def BUFFER1_def)
  note loop = program_loop_eq [OF this, where c = 0 and pm = pm and l = l and h = h and s = s8]
  have pc: "map (\<lambda>i. (u24 (FLASHSTART + (i - 0) * PAGESIZE), u24 (BUFFER1 + (i - 0) * PAGESIZE),
                 if i = u24 (pm + 16777215) then l else PAGESIZE)) [0..<pm] = program_copies fs"
    by (simp add: program_copies_def pl)
  from loop [unfolded pc] obtain pes where
    pes: "ops pes = map (\<lambda>(d, src, n). FastMemcpy d src n) (program_copies fs)" and
    prog: "program_loop h 0 pm l FLASHSTART BUFFER1 s8 =
       s8\<lparr>mem := fold (\<lambda>(d, src, n). fastmemcpy h d src n) (program_copies fs) (mem s8),
         trace := trace s8 @ pes\<rparr>"
    by blast
  let ?v = "image_crc (attempt_mem h fs (mem s)) fs"
  let ?post = "[EnableFlashKey, IOWrite FLASH_PROT 0xFF]
      @ map (\<lambda>ch. Putch (of_char ch)) ([CR, LF] @ ''Checking CRC... '')
      @ [Crc32Initialize, Crc32 FLASHSTART fs, Crc32Finalize ?v]
      @ map (\<lambda>ch. Putch (of_char ch)) (if ?v = moscrc s then ''OK'' @ [CR, LF] else ''ERROR'' @ [CR, LF])"
  let ?es = "?pre @ erase_ops polls @ map (\<lambda>ch. Putch (of_char ch)) [CR, LF] @ pes @ ?post"
  have run: "flash_attempt h fs att s =
       Some (?v = moscrc s,
             s\<lparr>mem := attempt_mem h fs (mem s),
               crc := crc32_feed crc32_init (read_bytes (attempt_mem h fs (mem s)) FLASHSTART fs),
               pgctl_reads := k,
               trace := trace s @ ?es\<rparr>)"
    unfolding flash_attempt_def Let_def s6_def [symmetric] erase option.case s8_def [symmetric]
      pl prod.case prog
    by (simp add: s8 io_write_def enableFlashKeyRegister_def emit_def outstring_eq
          crc32_initialize_def crc32_def crc32_finalize_def image_crc_def crc32_of_def
          attempt_mem_def)
  have "ops ?es = attempt_ops fs polls ?v"
    by (simp add: ops_append ops_putchs ops_erase_ops ops_Nil ops_Cons pes attempt_ops_def
          del: map_append)
  with polls run show ?thesis by blast
qed


lemma flash_loop_run:
  assumes "erase_completes h"
  shows "\<exists>r s' pvs es. flash_loop h fs success att s = Some (r, s') \<and>
     trace s' = trace s @ es \<and>
     ops es = concat (map (\<lambda>(polls, v). attempt_ops fs polls v) pvs) \<and>
     length pvs \<le> 3 - att \<and>
     (success \<longrightarrow> pvs = []) \<and>
     (\<not> success \<and> att < 3 \<longrightarrow> pvs \<noteq> []) \<and>
     (\<forall>(polls, v)\<in>set pvs. \<forall>p<FLASHPAGES. polls_ok (polls p)) \<and>
     (\<forall>i<length pvs. snd (pvs ! i) = image_crc (mem_after h fs (Suc i) (mem s)) fs) \<and>
     (\<forall>v\<in>set (butlast (map snd pvs)). v \<noteq> moscrc s) \<and>
     (r \<longleftrightarrow> success \<or> (pvs \<noteq> [] \<and> last (map snd pvs) = moscrc s)) \<and>
     (r \<or> length pvs = 3 - att) \<and>
     interrupts s' = interrupts s \<and> moscrc s' = moscrc s"
proof (induction "3 - att" arbitrary: success att s)
  case 0
  then have "flash_loop h fs success att s = Some (success, s)"
    by (subst flash_loop.simps) simp
  with 0 show ?case
    by (intro exI [of _ success] exI [of _ s] exI [of _ "[]"]) (simp add: ops_Nil)
next
  case (Suc n)
  show ?case
  proof (cases success)
    case True
    then have "flash_loop h fs success att s = Some (success, s)"
      by (subst flash_loop.simps) simp
    with True show ?thesis
      by (intro exI [of _ success] exI [of _ s] exI [of _ "[]"]) (simp add: ops_Nil)
  next
    case False
    from Suc.hyps(2) have att: "att < 3" by simp
    let ?v = "image_crc (attempt_mem h fs (mem s)) fs"
    from flash_attempt_eq [OF assms, of fs s att] obtain polls k es1 where
      polls: "\<forall>p<FLASHPAGES. polls_ok (polls p)" and
      es1: "ops es1 = attempt_ops fs polls ?v" and
      run1: "flash_attempt h fs att s =
         Some (?v = moscrc s,
               s\<lparr>mem := attempt_mem h fs (mem s),
                 crc := crc32_feed crc32_init (read_bytes (attempt_mem h fs (mem s)) FLASHSTART fs),
                 pgctl_reads := k, trace := trace s @ es1\<rparr>)"
      by blast
    define s1 where "s1 = s\<lparr>mem := attempt_mem h fs (mem s),
                 crc := crc32_feed crc32_init (read_bytes (attempt_mem h fs (mem s)) FLASHSTART fs),
                 pgctl_reads := k, trace := trace s @ es1\<rparr>"
    have s1: "mem s1 = attempt_mem h fs (mem s)" "moscrc s1 = moscrc s"
      "interrupts s1 = interrupts s" "trace s1 = trace s @ es1"
      by (simp_all add: s1_def)
    have n: "n = 3 - Suc att" using Suc.hyps(2) by simp
    from Suc.hyps(1) [OF n, of "?v = moscrc s" s1] obtain r s' pvs es where
      rec: "flash_loop h fs (?v = moscrc s) (Suc att) s1 = Some (r, s')" and
      tr: "trace s' = trace s1 @ es" and
      es: "ops es = concat (map (\<lambda>(polls, v). attempt_ops fs polls v) pvs)" and
      len: "length pvs \<le> 3 - Suc att" and
      ok_nil: "?v = moscrc s \<longrightarrow> pvs = []" and
      nonnil: "?v \<noteq> moscrc s \<and> Suc att < 3 \<longrightarrow> pvs \<noteq> []" and
      pok: "\<forall>(polls, v)\<in>set pvs. \<forall>p<FLASHPAGES. polls_ok (polls p)" and
      vals: "\<forall>i<length pvs. snd (pvs ! i) = image_crc (mem_after h fs (Suc i) (mem s1)) fs" and
      fails: "\<forall>v\<in>set (butlast (map snd pvs)). v \<noteq> moscrc s1" and
      res: "r \<longleftrightarrow> ?v = moscrc s \<or> (pvs \<noteq> [] \<and> last (map snd pvs) = moscrc s1)" and
      full: "r \<or> length pvs = 3 - Suc att" and
      inv: "interrupts s' = interrupts s1" "moscrc s' = moscrc s1"
      by (elim exE conjE) (rule that; assumption)
    let ?pvs = "(polls, ?v) # pvs"
    have step: "flash_loop h fs success att s = Some (r, s')"
      using False att run1 rec by (subst flash_loop.simps) (simp add: s1_def)
    have a: "trace s' = trace s @ (es1 @ es)"
      by (simp add: tr s1)
    have b: "ops (es1 @ es) = concat (map (\<lambda>(polls, v). attempt_ops fs polls v) ?pvs)"
      by (simp add: ops_append es1 es)
    have c: "length ?pvs \<le> 3 - att" using len att by simp
    have d: "\<forall>(polls, v)\<in>set ?pvs. \<forall>p<FLASHPAGES. polls_ok (polls p)"
      using polls pok by simp
    have e: "\<forall>i<length ?pvs. snd (?pvs ! i) = image_crc (mem_after h fs (Suc i) (mem s)) fs"
    proof (intro allI impI)
      fix i assume "i < length ?pvs"
      then show "snd (?pvs ! i) = image_crc (mem_after h fs (Suc i) (mem s)) fs"
        using vals by (cases i) (simp_all add: s1)
    qed
    have f: "\<forall>v\<in>set (butlast (map snd ?pvs)). v \<noteq> moscrc s"
      using fails ok_nil by (auto simp: s1)
    have g: "r \<longleftrightarrow> success \<or> (?pvs \<noteq> [] \<and> last (map snd ?pvs) = moscrc s)"
      using res ok_nil False by (auto simp: s1)
    have h: "r \<or> length ?pvs = 3 - att"
      using full att by auto
    show ?thesis
      using step a b c d e f g h inv False
      by (intro exI [of _ r] exI [of _ s'] exI [of _ ?pvs] exI [of _ "es1 @ es"])
         (simp add: s1)
  qed
qed


lemma events_since_append: "trace s' = trace s @ es \<Longrightarrow> events_since s s' = es"
  by (simp add: events_since_def)

lemma finalized_append: "finalized (xs @ ys) = finalized xs @ finalized ys"
  by (induction xs rule: finalized.induct) simp_all

lemma finalized_none: "\<forall>e\<in>set es. \<not> is_crc_event e \<Longrightarrow> finalized es = []"
  by (induction es rule: finalized.induct) simp_all

lemma finalized_calls: "\<forall>e\<in>set es. \<exists>a n. e = Crc32 a n \<Longrightarrow> finalized es = []"
  by (induction es rule: finalized.induct) auto

lemma update_mos_staged:
  "\<exists>ses. (\<forall>e\<in>set (ops ses). is_crc_event e) \<and>
     finalized (ops ses) = [crc32_of (mosfile s)] \<and>
     update_mos h s =
       (if crc32_of (mosfile s) \<noteq> moscrc s
        then Some (False,
               outstring (''Error reading file to memory'' @ [CR, LF])
                 (s\<lparr>mem := write_bytes (mem s) BUFFER1 (mosfile s),
                    crc := crc32_feed crc32_init (mosfile s), mosfile := [],
                    trace := trace s @ ses\<rparr>))
        else (case flash_loop h (u24 (getFileSize h (mos_fhandle s))) False 0
                     (s\<lparr>mem := write_bytes (mem s) BUFFER1 (mosfile s),
                        crc := crc32_feed crc32_init (mosfile s), mosfile := [],
                        interrupts := False,
                        trace := trace s @ ses @ [DisableInterrupts]\<rparr>) of
                None \<Rightarrow> None
              | Some (success, s11) \<Rightarrow> Some (success, outstring [CR, LF] s11)))"
proof -
  let ?c1 = "Putch 12 # map (\<lambda>ch. Putch (of_char ch))
      ((''Agon firmware update utility v1.9'' @ [LF, CR, LF, CR])
       @ (''Programming MOS firmware to ez80 flash...'' @ [CR, LF, CR, LF])
       @ ''Reading MOS firmware'')"
  define s5 where "s5 = crc32_initialize (outstring ''Reading MOS firmware''
      (outstring (''Programming MOS firmware to ez80 flash...'' @ [CR, LF, CR, LF])
        (print_version (putch 12 s))))"
  have s5: "s5 = s\<lparr>crc := crc32_init, trace := trace s @ ?c1 @ [Crc32Initialize]\<rparr>"
    by (simp add: s5_def crc32_initialize_def print_version_def putch_def emit_def outstring_eq)
  from stage_loop_eq [of BUFFER1 s5] obtain es where
    es: "\<forall>e\<in>set (ops es). \<exists>a n. e = Crc32 a n" and
    stage: "stage_loop BUFFER1 s5 =
       s5\<lparr>mem := write_bytes (mem s5) BUFFER1 (mosfile s5),
         crc := crc32_feed (crc s5) (mosfile s5), mosfile := [], trace := trace s5 @ es\<rparr>"
    by blast
  let ?ses = "?c1 @ [Crc32Initialize] @ es @ [Crc32Finalize (crc32_of (mosfile s))]
      @ map (\<lambda>ch. Putch (of_char ch)) [CR, LF]"
  let ?ses' = "?ses @ map (\<lambda>ch. Putch (of_char ch)) [CR, LF]"
  have fh: "mos_fhandle (outstring ''Reading MOS firmware''
      (outstring (''Programming MOS firmware to ez80 flash...'' @ [CR, LF, CR, LF])
        (print_version (putch 12 s)))) = mos_fhandle s"
    by (simp add: print_version_def putch_def emit_def outstring_eq)
  have run: "update_mos h s =
       (if crc32_of (mosfile s) \<noteq> moscrc s
        then Some (False,
               outstring (''Error reading file to memory'' @ [CR, LF])
                 (s\<lparr>mem := write_bytes (mem s) BUFFER1 (mosfile s),
                    crc := crc32_feed crc32_init (mosfile s), mosfile := [],
                    trace := trace s @ ?ses\<rparr>))
        else (case flash_loop h (u24 (getFileSize h (mos_fhandle s))) False 0
                     (s\<lparr>mem := write_bytes (mem s) BUFFER1 (mosfile s),
                        crc := crc32_feed crc32_init (mosfile s), mosfile := [],
                        interrupts := False,
                        trace := trace s @ ?ses' @ [DisableInterrupts]\<rparr>) of
                None \<Rightarrow> None
              | Some (success, s11) \<Rightarrow> Some (success, outstring [CR, LF] s11)))"
    unfolding update_mos_def Let_def fh s5_def [symmetric] stage
    by (simp add: s5 crc32_finalize_def crc32_of_def emit_def outstring_eq di_def)
  have fin: "finalized (ops es) = []"
    using es by (rule finalized_calls)
  show ?thesis
  proof (cases "crc32_of (mosfile s) \<noteq> moscrc s")
    case True
    have "\<forall>e\<in>set (ops ?ses). is_crc_event e"
      using es by (auto simp: ops_append ops_putchs ops_Nil ops_Cons simp del: map_append)
    moreover have "finalized (ops ?ses) = [crc32_of (mosfile s)]"
      by (simp add: ops_append ops_putchs ops_Nil ops_Cons finalized_append fin
            del: map_append)
    ultimately show ?thesis using run True by (intro exI [of _ ?ses]) simp
  next
    case False
    have "\<forall>e\<in>set (ops ?ses'). is_crc_event e"
      using es by (auto simp: ops_append ops_putchs ops_Nil ops_Cons simp del: map_append)
    moreover have "finalized (ops ?ses') = [crc32_of (mosfile s)]"
      by (simp add: ops_append ops_putchs ops_Nil ops_Cons finalized_append fin
            del: map_append)
    ultimately show ?thesis using run False by (intro exI [of _ ?ses']) simp
  qed
qed


lemma update_mos_mismatch:
  assumes "crc32_of (mosfile s) \<noteq> moscrc s"
  shows "\<exists>s' es. update_mos h s = Some (False, s') \<and> trace s' = trace s @ es \<and>
     (\<forall>e\<in>set (ops es). is_crc_event e) \<and>
     finalized (ops es) = [crc32_of (mosfile s)] \<and> interrupts s' = interrupts s \<and>
     mem s' = write_bytes (mem s) BUFFER1 (mosfile s)"
proof -
  from update_mos_staged [where h = h and s = s] assms obtain ses where
    ses: "\<forall>e\<in>set (ops ses). is_crc_event e" and
    fin: "finalized (ops ses) = [crc32_of (mosfile s)]" and
    run: "update_mos h s = Some (False,
               outstring (''Error reading file to memory'' @ [CR, LF])
                 (s\<lparr>mem := write_bytes (mem s) BUFFER1 (mosfile s),
                    crc := crc32_feed crc32_init (mosfile s), mosfile := [],
                    trace := trace s @ ses\<rparr>))"
    by auto
  let ?es = "ses @ map (\<lambda>ch. Putch (of_char ch)) (''Error reading file to memory'' @ [CR, LF])"
  have "\<forall>e\<in>set (ops ?es). is_crc_event e"
    using ses by (simp only: ops_append ops_putchs append_Nil2)
  moreover have "finalized (ops ?es) = [crc32_of (mosfile s)]"
    using fin by (simp only: ops_append ops_putchs append_Nil2)
  ultimately show ?thesis
    unfolding run
    by (intro exI [of _ "outstring (''Error reading file to memory'' @ [CR, LF])
                 (s\<lparr>mem := write_bytes (mem s) BUFFER1 (mosfile s),
                    crc := crc32_feed crc32_init (mosfile s), mosfile := [],
                    trace := trace s @ ses\<rparr>)"] exI [of _ ?es])
       (simp add: outstring_eq)
qed

lemma update_mos_run:
  assumes "erase_completes h" and "crc32_of (mosfile s) = moscrc s"
  shows "\<exists>r s' sops pvs. update_mos h s = Some (r, s') \<and>
     ops (events_since s s') =
       sops @ DisableInterrupts #
         concat (map (\<lambda>(polls, v). attempt_ops (u24 (getFileSize h (mos_fhandle s))) polls v) pvs) \<and>
     (\<forall>e\<in>set sops. is_crc_event e) \<and>
     finalized sops = [crc32_of (mosfile s)] \<and>
     pvs \<noteq> [] \<and> length pvs \<le> 3 \<and>
     (\<forall>(polls, v)\<in>set pvs. \<forall>p<FLASHPAGES. polls_ok (polls p)) \<and>
     (\<forall>i<length pvs. snd (pvs ! i) =
        image_crc (mem_after h (u24 (getFileSize h (mos_fhandle s))) (Suc i)
                     (write_bytes (mem s) BUFFER1 (mosfile s)))
          (u24 (getFileSize h (mos_fhandle s)))) \<and>
     (\<forall>v\<in>set (butlast (map snd pvs)). v \<noteq> moscrc s) \<and>
     (r \<longleftrightarrow> last (map snd pvs) = moscrc s) \<and>
     (r \<or> length pvs = 3) \<and>
     \<not> interrupts s'"
proof -
  let ?fs = "u24 (getFileSize h (mos_fhandle s))"
  from update_mos_staged [where h = h and s = s] assms(2) obtain ses where
    ses: "\<forall>e\<in>set (ops ses). is_crc_event e" and
    fin: "finalized (ops ses) = [crc32_of (mosfile s)]" and
    run: "update_mos h s =
       (case flash_loop h ?fs False 0
                     (s\<lparr>mem := write_bytes (mem s) BUFFER1 (mosfile s),
                        crc := crc32_feed crc32_init (mosfile s), mosfile := [],
                        interrupts := False,
                        trace := trace s @ ses @ [DisableInterrupts]\<rparr>) of
                None \<Rightarrow> None
              | Some (success, s11) \<Rightarrow> Some (success, outstring [CR, LF] s11))"
    by auto
  define s10 where "s10 = s\<lparr>mem := write_bytes (mem s) BUFFER1 (mosfile s),
                        crc := crc32_feed crc32_init (mosfile s), mosfile := [],
                        interrupts := False,
                        trace := trace s @ ses @ [DisableInterrupts]\<rparr>"
  have s10: "mem s10 = write_bytes (mem s) BUFFER1 (mosfile s)" "moscrc s10 = moscrc s"
    "interrupts s10 = False" "trace s10 = trace s @ ses @ [DisableInterrupts]"
    by (simp_all add: s10_def)
  from flash_loop_run [OF assms(1), of ?fs False 0 s10] obtain r s11 pvs es where
    loop: "flash_loop h ?fs False 0 s10 = Some (r, s11)" and
    tr: "trace s11 = trace s10 @ es" and
    es: "ops es = concat (map (\<lambda>(polls, v). attempt_ops ?fs polls v) pvs)" and
    len: "length pvs \<le> 3 - 0" and
    nonnil: "\<not> False \<and> (0::nat) < 3 \<longrightarrow> pvs \<noteq> []" and
    pok: "\<forall>(polls, v)\<in>set pvs. \<forall>p<FLASHPAGES. polls_ok (polls p)" and
    vals: "\<forall>i<length pvs. snd (pvs ! i) = image_crc (mem_after h ?fs (Suc i) (mem s10)) ?fs" and
    fails: "\<forall>v\<in>set (butlast (map snd pvs)). v \<noteq> moscrc s10" and
    res: "r \<longleftrightarrow> False \<or> (pvs \<noteq> [] \<and> last (map snd pvs) = moscrc s10)" and
    full: "r \<or> length pvs = 3 - 0" and
    inv: "interrupts s11 = interrupts s10"
    by (elim exE conjE) (rule that; assumption)
  have result: "update_mos h s = Some (r, outstring [CR, LF] s11)"
    unfolding run s10_def [symmetric] loop by simp
  have "trace (outstring [CR, LF] s11) =
      trace s @ (ses @ [DisableInterrupts] @ es @ map (\<lambda>ch. Putch (of_char ch)) [CR, LF])"
    by (simp add: outstring_eq tr s10)
  then have "events_since s (outstring [CR, LF] s11) =
      ses @ [DisableInterrupts] @ es @ map (\<lambda>ch. Putch (of_char ch)) [CR, LF]"
    by (rule events_since_append)
  then have a: "ops (events_since s (outstring [CR, LF] s11)) =
      ops ses @ DisableInterrupts # concat (map (\<lambda>(polls, v). attempt_ops ?fs polls v) pvs)"
    by (simp only: ops_append ops_putchs es ops_Cons ops_Nil is_console.simps if_False
          append_Nil2 append_Cons append_Nil)
  have b: "\<not> interrupts (outstring [CR, LF] s11)"
    by (simp add: outstring_eq inv s10)
  show ?thesis
    using result a ses fin nonnil len pok vals fails res full b
    by (intro exI [of _ r] exI [of _ "outstring [CR, LF] s11"] exI [of _ "ops ses"]
          exI [of _ pvs]) (simp add: s10)
qed


subsection \<open>Projections of a run\<close>

lemma copies_append: "copies (xs @ ys) = copies xs @ copies ys"
  by (induction xs rule: copies.induct) simp_all

lemma copies_none: "\<forall>e\<in>set es. \<not> is_copy e \<Longrightarrow> copies es = []"
  by (induction es rule: copies.induct) simp_all

lemma copies_map: "copies (map (\<lambda>(d, src, n). FastMemcpy d src n) cs) = cs"
  by (induction cs) auto

lemma erase_ops_cmds: "\<forall>e\<in>set (erase_ops polls). is_erase_cmd e"
  by (auto simp: erase_ops_def)

lemma erase_cmd_kinds: "is_erase_cmd e \<Longrightarrow> \<not> is_crc_event e \<and> \<not> is_copy e \<and> is_flash_op e"
  by (cases e rule: is_erase_cmd.cases) simp_all

lemma finalized_attempt_ops: "finalized (attempt_ops fs polls v) = [v]"
proof -
  have "finalized (erase_ops polls) = []"
    using erase_ops_cmds erase_cmd_kinds by (intro finalized_none) blast
  moreover have "finalized (map (\<lambda>(d, src, n). FastMemcpy d src n) (program_copies fs)) = []"
    by (intro finalized_none) auto
  ultimately show ?thesis
    by (simp add: attempt_ops_def finalized_append)
qed

lemma copies_attempt_ops: "copies (attempt_ops fs polls v) = program_copies fs"
proof -
  have "copies (erase_ops polls) = []"
    using erase_ops_cmds erase_cmd_kinds by (intro copies_none) blast
  then show ?thesis
    by (simp add: attempt_ops_def copies_append copies_map)
qed

lemma finalized_attempts:
  "finalized (concat (map (\<lambda>(polls, v). attempt_ops fs polls v) pvs)) = map snd pvs"
  by (induction pvs) (auto simp: finalized_append finalized_attempt_ops)

lemma after_di_append:
  "DisableInterrupts \<notin> set xs \<Longrightarrow> after_di (xs @ DisableInterrupts # ys) = ys"
  by (induction xs) auto

lemma crc_events_no_di: "\<forall>e\<in>set xs. is_crc_event e \<Longrightarrow> DisableInterrupts \<notin> set xs"
  by auto

lemma count_list_append: "count_list (xs @ ys) e = count_list xs e + count_list ys e"
  by (induction xs) simp_all

lemma count_list_absent: "e \<notin> set xs \<Longrightarrow> count_list xs e = 0"
  by (induction xs) auto


lemma run_after_di:
  assumes "\<forall>e\<in>set sops. is_crc_event e"
  shows "after_di (sops @ DisableInterrupts # rest) = rest"
  using assms by (intro after_di_append crc_events_no_di)

lemma run_verify_crcs:
  assumes "\<forall>e\<in>set sops. is_crc_event e"
  shows "verify_crcs (sops @ DisableInterrupts #
            concat (map (\<lambda>(polls, v). attempt_ops fs polls v) pvs)) = map snd pvs"
  unfolding verify_crcs_def run_after_di [OF assms] by (rule finalized_attempts)

lemma length_3_cases:
  assumes "length xs = 3"
  obtains a b c where "xs = [a, b, c]"
  using assms by (auto simp: length_Suc_conv numeral_3_eq_3)

section \<open>The retry bound\<close>

text \<open>
  Claim C1. Let the image be staged with the expected checksum and let the flash
  controller finish every erase. Then \<open>update_mos\<close> returns, after at least one and at
  most three verify steps. If every verify step of the run read back a checksum other
  than the expected one, the result is \<open>False\<close> (the caller then reports that bare-metal
  recovery is required and halts), and what follows \<^verbatim>\<open>di\<close> is exactly three complete
  attempts: unprotect, erase, program, protect, verify, three times over.
\<close>

theorem update_mos_retries_exhausted:
  assumes "erase_completes h" and "crc32_of (mosfile s) = moscrc s"
  shows "\<exists>r s'. update_mos h s = Some (r, s') \<and>
     1 \<le> length (verify_crcs (ops (events_since s s'))) \<and>
     length (verify_crcs (ops (events_since s s'))) \<le> 3 \<and>
     ((\<forall>v\<in>set (verify_crcs (ops (events_since s s'))). v \<noteq> moscrc s) \<longrightarrow>
        \<not> r \<and> length (verify_crcs (ops (events_since s s'))) = 3 \<and>
        (\<exists>p1 v1 p2 v2 p3 v3. after_di (ops (events_since s s')) =
            attempt_ops (u24 (getFileSize h (mos_fhandle s))) p1 v1
          @ attempt_ops (u24 (getFileSize h (mos_fhandle s))) p2 v2
          @ attempt_ops (u24 (getFileSize h (mos_fhandle s))) p3 v3))"
proof -
  let ?fs = "u24 (getFileSize h (mos_fhandle s))"
  from update_mos_run [OF assms] obtain r s' sops pvs where
    run: "update_mos h s = Some (r, s')" and
    E: "ops (events_since s s') =
       sops @ DisableInterrupts # concat (map (\<lambda>(polls, v). attempt_ops ?fs polls v) pvs)" and
    sops: "\<forall>e\<in>set sops. is_crc_event e" and
    nonnil: "pvs \<noteq> []" and len: "length pvs \<le> 3" and
    res: "r \<longleftrightarrow> last (map snd pvs) = moscrc s" and
    full: "r \<or> length pvs = 3"
    by (elim exE conjE) (rule that; assumption)
  have vc: "verify_crcs (ops (events_since s s')) = map snd pvs"
    unfolding E by (rule run_verify_crcs [OF sops])
  have ad: "after_di (ops (events_since s s')) =
      concat (map (\<lambda>(polls, v). attempt_ops ?fs polls v) pvs)"
    unfolding E by (rule run_after_di [OF sops])
  have "\<not> r \<and> length pvs = 3 \<and>
        (\<exists>p1 v1 p2 v2 p3 v3. concat (map (\<lambda>(polls, v). attempt_ops ?fs polls v) pvs) =
            attempt_ops ?fs p1 v1 @ attempt_ops ?fs p2 v2 @ attempt_ops ?fs p3 v3)"
    if fails: "\<forall>v\<in>set (map snd pvs). v \<noteq> moscrc s"
  proof -
    have "last (map snd pvs) \<in> set (map snd pvs)"
      using nonnil by (intro last_in_set) simp
    with fails res have r: "\<not> r" by blast
    with full have l3: "length pvs = 3" by blast
    then obtain a b c where "pvs = [a, b, c]" by (rule length_3_cases)
    then have "concat (map (\<lambda>(polls, v). attempt_ops ?fs polls v) pvs) =
        attempt_ops ?fs (fst a) (snd a) @ attempt_ops ?fs (fst b) (snd b)
        @ attempt_ops ?fs (fst c) (snd c)"
      by (simp add: split_beta)
    with r l3 show ?thesis by blast
  qed
  then show ?thesis
    using run nonnil len
    by (intro exI [of _ r] exI [of _ s']) (simp add: vc ad Suc_le_eq)
qed

lemma erase_completes_stuck_flash: "erase_completes stuck_flash"
  unfolding erase_completes_def by (auto simp: stuck_flash_def)

lemma sample_state_staged: "crc32_of (mosfile sample_state) = moscrc sample_state"
  by (simp add: sample_state_def crc32_of_def crc32_final_def crc32_feed_def crc32_init_def
        crc32_byte_def crc32_bit_def)

lemma fold_stuck: "(\<And>x m. f x m = m) \<Longrightarrow> fold f xs m = m"
  by (induction xs) simp_all

lemma attempt_mem_stuck_flash: "attempt_mem stuck_flash fs m = m"
  unfolding attempt_mem_def erase_mem_def
  by (simp add: fold_stuck stuck_flash_def split_beta)

lemma mem_after_stuck_flash: "mem_after stuck_flash fs n m = m"
  by (induction n arbitrary: m) (simp_all add: attempt_mem_stuck_flash)

lemma read_bytes_2: "read_bytes m a 2 = [m (u24 a), m (u24 (Suc a))]"
  by (simp add: read_bytes_def numeral_2_eq_2)

lemma sample_state_verify:
  "image_crc (write_bytes (mem sample_state) BUFFER1 (mosfile sample_state))
      (u24 (getFileSize stuck_flash (mos_fhandle sample_state))) \<noteq> moscrc sample_state"
  by (simp add: sample_state_def stuck_flash_def image_crc_def read_bytes_2 u24_def
        BUFFER1_def FLASHSTART_def crc32_of_def crc32_final_def crc32_feed_def crc32_init_def
        crc32_byte_def crc32_bit_def)


theorem update_mos_retries_exhausted_witness:
  "erase_completes stuck_flash \<and> crc32_of (mosfile sample_state) = moscrc sample_state \<and>
   (\<exists>r s'. update_mos stuck_flash sample_state = Some (r, s') \<and>
      (\<forall>v\<in>set (verify_crcs (ops (events_since sample_state s'))). v \<noteq> moscrc sample_state) \<and>
      \<not> r \<and> length (verify_crcs (ops (events_since sample_state s'))) = 3)"
proof -
  let ?fs = "u24 (getFileSize stuck_flash (mos_fhandle sample_state))"
  note c = erase_completes_stuck_flash and st = sample_state_staged
  from update_mos_run [OF c st] obtain r s' sops pvs where
    run: "update_mos stuck_flash sample_state = Some (r, s')" and
    E: "ops (events_since sample_state s') =
       sops @ DisableInterrupts # concat (map (\<lambda>(polls, v). attempt_ops ?fs polls v) pvs)" and
    sops: "\<forall>e\<in>set sops. is_crc_event e" and
    vals: "\<forall>i<length pvs. snd (pvs ! i) =
        image_crc (mem_after stuck_flash ?fs (Suc i)
                     (write_bytes (mem sample_state) BUFFER1 (mosfile sample_state))) ?fs"
    by (elim exE conjE) (rule that; assumption)
  have vc: "verify_crcs (ops (events_since sample_state s')) = map snd pvs"
    unfolding E by (rule run_verify_crcs [OF sops])
  have fails: "\<forall>v\<in>set (verify_crcs (ops (events_since sample_state s'))). v \<noteq> moscrc sample_state"
    unfolding vc
  proof
    fix v assume "v \<in> set (map snd pvs)"
    then obtain i where i: "i < length pvs" and v: "v = snd (pvs ! i)"
      by (auto simp: in_set_conv_nth)
    from vals i have "snd (pvs ! i) =
        image_crc (write_bytes (mem sample_state) BUFFER1 (mosfile sample_state)) ?fs"
      by (simp only: mem_after_stuck_flash)
    with v sample_state_verify show "v \<noteq> moscrc sample_state" by simp
  qed
  from update_mos_retries_exhausted [OF c st] run fails
  have "\<not> r \<and> length (verify_crcs (ops (events_since sample_state s'))) = 3"
    by auto
  with c st run fails show ?thesis by blast
qed

lemma finalized_ops: "finalized (ops es) = finalized es"
  by (induction es rule: finalized.induct) (simp_all add: ops_Nil ops_Cons)

lemma flash_op_kinds: "is_flash_op e \<Longrightarrow> \<not> is_console e \<and> \<not> is_crc_event e"
  by (cases e rule: is_flash_op.cases) simp_all

lemma staged_flash_untouched:
  assumes "BUFFER1 + length bs \<le> 16777216" and "a < FLASHSIZE"
  shows "write_bytes m BUFFER1 bs a = m a"
proof (rule write_bytes_other, intro allI impI)
  fix j assume "j < length bs"
  with assms(1) have "u24 (BUFFER1 + j) = BUFFER1 + j" by (intro u24_idem) simp
  with assms(2) show "u24 (BUFFER1 + j) \<noteq> a" by (simp add: BUFFER1_def FLASHSIZE_def)
qed

section \<open>A staging checksum that does not match\<close>

text \<open>
  Claim C2. The checksum \<open>update_mos\<close> computes while it stages the image is the
  checksum of the bytes the file delivers (the only \<^verbatim>\<open>crc32_finalize\<close> of the run returns
  it). If it differs from the expected one, \<open>update_mos\<close> returns \<open>False\<close> and the run
  holds no operation on the flash: no unlock of the key register, no register access, no
  bulk copy, and no \<^verbatim>\<open>di\<close> either. The interrupt flag is as before, and so is every byte
  of the flash, provided the image fits between \<open>BUFFER1\<close> and the end of the 24-bit
  address space (so that staging does not wrap around into the flash).
\<close>

theorem update_mos_stage_mismatch:
  assumes "crc32_of (mosfile s) \<noteq> moscrc s"
  shows "\<exists>s'. update_mos h s = Some (False, s') \<and>
     finalized (events_since s s') = [crc32_of (mosfile s)] \<and>
     (\<forall>e\<in>set (events_since s s'). \<not> is_flash_op e \<and> e \<noteq> DisableInterrupts) \<and>
     interrupts s' = interrupts s \<and>
     (BUFFER1 + length (mosfile s) \<le> 16777216 \<longrightarrow> (\<forall>a<FLASHSIZE. mem s' a = mem s a))"
proof -
  from update_mos_mismatch [OF assms, of h] obtain s' es where
    run: "update_mos h s = Some (False, s')" and
    tr: "trace s' = trace s @ es" and
    crc: "\<forall>e\<in>set (ops es). is_crc_event e" and
    fin: "finalized (ops es) = [crc32_of (mosfile s)]" and
    int: "interrupts s' = interrupts s" and
    mem: "mem s' = write_bytes (mem s) BUFFER1 (mosfile s)"
    by (elim exE conjE) (rule that; assumption)
  have E: "events_since s s' = es" using tr by (rule events_since_append)
  have quiet: "\<not> is_flash_op e \<and> e \<noteq> DisableInterrupts" if "e \<in> set es" for e
  proof (cases "is_console e")
    case True
    then show ?thesis using flash_op_kinds by auto
  next
    case False
    with that have "e \<in> set (ops es)" by (simp add: ops_def)
    with crc have "is_crc_event e" by blast
    then show ?thesis using flash_op_kinds by auto
  qed
  have flash: "\<forall>a<FLASHSIZE. mem s' a = mem s a" if "BUFFER1 + length (mosfile s) \<le> 16777216"
    unfolding mem using that by (simp add: staged_flash_untouched)
  show ?thesis
    using run fin int quiet flash
    by (intro exI [of _ s']) (simp add: E finalized_ops)
qed

lemma corrupt_state_staged: "crc32_of (mosfile corrupt_state) \<noteq> moscrc corrupt_state"
  by (simp add: corrupt_state_def sample_state_def crc32_of_def crc32_final_def crc32_feed_def
        crc32_init_def crc32_byte_def crc32_bit_def)

theorem update_mos_stage_mismatch_witness:
  "crc32_of (mosfile corrupt_state) \<noteq> moscrc corrupt_state \<and>
   BUFFER1 + length (mosfile corrupt_state) \<le> 16777216 \<and>
   (\<exists>s'. update_mos stuck_flash corrupt_state = Some (False, s') \<and>
      interrupts s' = interrupts corrupt_state \<and>
      (\<forall>a<FLASHSIZE. mem s' a = mem corrupt_state a))"
proof -
  have fits: "BUFFER1 + length (mosfile corrupt_state) \<le> 16777216"
    by (simp add: corrupt_state_def sample_state_def BUFFER1_def)
  from update_mos_stage_mismatch [OF corrupt_state_staged, of stuck_flash] fits
  have "\<exists>s'. update_mos stuck_flash corrupt_state = Some (False, s') \<and>
      interrupts s' = interrupts corrupt_state \<and>
      (\<forall>a<FLASHSIZE. mem s' a = mem corrupt_state a)"
    by blast
  with corrupt_state_staged fits show ?thesis by blast
qed

section \<open>The order of the operations within an attempt\<close>

lemma attempt_ops_split:
  "attempt_ops fs polls v =
     ([EnableFlashKey, IOWrite FLASH_PROT 0, EnableFlashKey, IOWrite FLASH_FDIV 0x5F]
        @ erase_ops polls @ map (\<lambda>(d, src, n). FastMemcpy d src n) (program_copies fs))
     @ [EnableFlashKey, IOWrite FLASH_PROT 0xFF,
        Crc32Initialize, Crc32 FLASHSTART fs, Crc32Finalize v]"
  by (simp add: attempt_ops_def)

lemma erase_ops_no_relock: "IOWrite FLASH_PROT v \<notin> set (erase_ops polls)"
  by (auto simp: erase_ops_def)

lemma attempt_prefix_quiet:
  assumes "e \<in> set ([EnableFlashKey, IOWrite FLASH_PROT 0, EnableFlashKey, IOWrite FLASH_FDIV 0x5F]
        @ erase_ops polls @ map (\<lambda>(d, src, n). FastMemcpy d src n) (program_copies fs))"
  shows "\<not> is_crc_event e \<and> e \<noteq> IOWrite FLASH_PROT 0xFF"
proof -
  consider "e \<in> set [EnableFlashKey, IOWrite FLASH_PROT 0, EnableFlashKey, IOWrite FLASH_FDIV 0x5F]"
    | "e \<in> set (erase_ops polls)"
    | "e \<in> set (map (\<lambda>(d, src, n). FastMemcpy d src n) (program_copies fs))"
    using assms unfolding set_append by blast
  then show ?thesis
  proof cases
    case 1
    then show ?thesis by auto
  next
    case 2
    with erase_ops_cmds have "is_erase_cmd e" by blast
    with 2 erase_ops_no_relock erase_cmd_kinds show ?thesis by metis
  next
    case 3
    then show ?thesis by auto
  qed
qed

lemma copies_attempt_prefix:
  "copies ([EnableFlashKey, IOWrite FLASH_PROT 0, EnableFlashKey, IOWrite FLASH_FDIV 0x5F]
        @ erase_ops polls @ map (\<lambda>(d, src, n). FastMemcpy d src n) (program_copies fs))
   = program_copies fs"
proof -
  have "copies (erase_ops polls) = []"
    using erase_ops_cmds erase_cmd_kinds by (intro copies_none) blast
  then show ?thesis by (simp add: copies_append copies_map)
qed

text \<open>
  Claim C3. In every run that gets past the staging check, what follows \<^verbatim>\<open>di\<close> is a
  sequence of attempts, one for each verify step. Every attempt starts by unprotecting
  the flash and ends with: unlock the key register, write \<open>0xFF\<close> to \<^verbatim>\<open>FLASH_PROT\<close>,
  then initialise, feed and finalise the checksum over the flash. All bulk copies of the
  attempt stand before that protecting write, no checksum call does, and the write is
  there whatever the checksum then turns out to be.
\<close>

theorem update_mos_relock_before_verify:
  assumes "erase_completes h" and "crc32_of (mosfile s) = moscrc s"
  shows "\<exists>r s' as. update_mos h s = Some (r, s') \<and>
     after_di (ops (events_since s s')) = concat as \<and>
     length as = length (verify_crcs (ops (events_since s s'))) \<and> as \<noteq> [] \<and>
     (\<forall>a\<in>set as. \<exists>pre v.
        a = pre @ [EnableFlashKey, IOWrite FLASH_PROT 0xFF, Crc32Initialize,
                   Crc32 FLASHSTART (u24 (getFileSize h (mos_fhandle s))), Crc32Finalize v] \<and>
        take 2 pre = [EnableFlashKey, IOWrite FLASH_PROT 0] \<and>
        (\<forall>e\<in>set pre. \<not> is_crc_event e \<and> e \<noteq> IOWrite FLASH_PROT 0xFF) \<and>
        copies pre = copies a)"
proof -
  let ?fs = "u24 (getFileSize h (mos_fhandle s))"
  let ?A = "\<lambda>(polls, v). attempt_ops ?fs polls v"
  from update_mos_run [OF assms] obtain r s' sops pvs where
    run: "update_mos h s = Some (r, s')" and
    E: "ops (events_since s s') = sops @ DisableInterrupts # concat (map ?A pvs)" and
    sops: "\<forall>e\<in>set sops. is_crc_event e" and
    nonnil: "pvs \<noteq> []"
    by (elim exE conjE) (rule that; assumption)
  have vc: "verify_crcs (ops (events_since s s')) = map snd pvs"
    unfolding E by (rule run_verify_crcs [OF sops])
  have ad: "after_di (ops (events_since s s')) = concat (map ?A pvs)"
    unfolding E by (rule run_after_di [OF sops])
  have shape: "\<exists>pre v.
        a = pre @ [EnableFlashKey, IOWrite FLASH_PROT 0xFF, Crc32Initialize,
                   Crc32 FLASHSTART ?fs, Crc32Finalize v] \<and>
        take 2 pre = [EnableFlashKey, IOWrite FLASH_PROT 0] \<and>
        (\<forall>e\<in>set pre. \<not> is_crc_event e \<and> e \<noteq> IOWrite FLASH_PROT 0xFF) \<and>
        copies pre = copies a" if "a \<in> set (map ?A pvs)" for a
  proof -
    from that obtain polls v where a: "a = attempt_ops ?fs polls v" by auto
    let ?pre = "[EnableFlashKey, IOWrite FLASH_PROT 0, EnableFlashKey, IOWrite FLASH_FDIV 0x5F]
        @ erase_ops polls @ map (\<lambda>(d, src, n). FastMemcpy d src n) (program_copies ?fs)"
    have "a = ?pre @ [EnableFlashKey, IOWrite FLASH_PROT 0xFF, Crc32Initialize,
                   Crc32 FLASHSTART ?fs, Crc32Finalize v]"
      unfolding a by (rule attempt_ops_split)
    moreover have "take 2 ?pre = [EnableFlashKey, IOWrite FLASH_PROT 0]" by simp
    moreover have "\<forall>e\<in>set ?pre. \<not> is_crc_event e \<and> e \<noteq> IOWrite FLASH_PROT 0xFF"
      using attempt_prefix_quiet by blast
    moreover have "copies ?pre = copies a"
      unfolding a copies_attempt_ops by (rule copies_attempt_prefix)
    ultimately show ?thesis by blast
  qed
  show ?thesis
    using run nonnil shape
    by (intro exI [of _ r] exI [of _ s'] exI [of _ "map ?A pvs"]) (simp add: vc ad)
qed

theorem update_mos_relock_before_verify_witness:
  "erase_completes stuck_flash \<and> crc32_of (mosfile sample_state) = moscrc sample_state \<and>
   (\<exists>r s' as. update_mos stuck_flash sample_state = Some (r, s') \<and>
     after_di (ops (events_since sample_state s')) = concat as \<and> as \<noteq> [] \<and>
     (\<forall>a\<in>set as. \<exists>pre v.
        a = pre @ [EnableFlashKey, IOWrite FLASH_PROT 0xFF, Crc32Initialize,
                   Crc32 FLASHSTART (u24 (getFileSize stuck_flash (mos_fhandle sample_state))),
                   Crc32Finalize v]))"
proof -
  let ?fs = "u24 (getFileSize stuck_flash (mos_fhandle sample_state))"
  from update_mos_relock_before_verify [OF erase_completes_stuck_flash sample_state_staged]
  obtain r s' as where
    run: "update_mos stuck_flash sample_state = Some (r, s')" and
    ad: "after_di (ops (events_since sample_state s')) = concat as" and
    nonnil: "as \<noteq> []" and
    shape: "\<forall>a\<in>set as. \<exists>pre v.
        a = pre @ [EnableFlashKey, IOWrite FLASH_PROT 0xFF, Crc32Initialize,
                   Crc32 FLASHSTART ?fs, Crc32Finalize v] \<and>
        take 2 pre = [EnableFlashKey, IOWrite FLASH_PROT 0] \<and>
        (\<forall>e\<in>set pre. \<not> is_crc_event e \<and> e \<noteq> IOWrite FLASH_PROT 0xFF) \<and>
        copies pre = copies a"
    by (elim exE conjE) (rule that; assumption)
  have "\<forall>a\<in>set as. \<exists>pre v.
        a = pre @ [EnableFlashKey, IOWrite FLASH_PROT 0xFF, Crc32Initialize,
                   Crc32 FLASHSTART ?fs, Crc32Finalize v]"
  proof
    fix a assume "a \<in> set as"
    with shape obtain pre v where
      "a = pre @ [EnableFlashKey, IOWrite FLASH_PROT 0xFF, Crc32Initialize,
                   Crc32 FLASHSTART ?fs, Crc32Finalize v]"
      by blast
    then show "\<exists>pre v. a = pre @ [EnableFlashKey, IOWrite FLASH_PROT 0xFF, Crc32Initialize,
                   Crc32 FLASHSTART ?fs, Crc32Finalize v]"
      by blast
  qed
  with erase_completes_stuck_flash sample_state_staged run ad nonnil show ?thesis by blast
qed

section \<open>The erase phase\<close>

lemma attempt_ops_erase_first:
  "attempt_ops fs polls v =
     [EnableFlashKey, IOWrite FLASH_PROT 0, EnableFlashKey, IOWrite FLASH_FDIV 0x5F]
     @ concat (map (\<lambda>p. [IOWrite FLASH_PAGE (of_nat p), IOWrite FLASH_PGCTL 0x02]
                        @ map (IORead FLASH_PGCTL) (polls p)) [0..<FLASHPAGES])
     @ (map (\<lambda>(d, src, n). FastMemcpy d src n) (program_copies fs)
        @ [EnableFlashKey, IOWrite FLASH_PROT 0xFF,
           Crc32Initialize, Crc32 FLASHSTART fs, Crc32Finalize v])"
  by (simp add: attempt_ops_def erase_ops_def)

lemma attempt_suffix_no_erase:
  "\<forall>e\<in>set (map (\<lambda>(d, src, n). FastMemcpy d src n) (program_copies fs)
        @ [EnableFlashKey, IOWrite FLASH_PROT 0xFF,
           Crc32Initialize, Crc32 FLASHSTART fs, Crc32Finalize v]). \<not> is_erase_cmd e"
  by auto

text \<open>
  Claim C4, as the code has it. The erase phase works on the 128 pages of the flash
  (\<open>FLASHPAGES\<close>, of \<open>PAGESIZE = 1024\<close> bytes each, 131072 bytes in all), not on 8 blocks
  of 16384 bytes. In every attempt of a run that gets past the staging check, right after
  unprotecting, the pages 0 to 127 are erased in this order and none is left out: select
  the page, set the page-erase bit, read \<^verbatim>\<open>FLASH_PGCTL\<close> until the bit is clear (\<open>polls p\<close>
  are the values read for page \<open>p\<close>: the last has the bit clear, the ones before have it
  set). The rest of the attempt, with all its bulk copies, follows the last of these
  reads and holds no erase command.
\<close>

theorem update_mos_erases_every_page:
  assumes "erase_completes h" and "crc32_of (mosfile s) = moscrc s"
  shows "FLASHPAGES = 128 \<and> FLASHPAGES * PAGESIZE = FLASHSIZE \<and>
   (\<exists>r s' as. update_mos h s = Some (r, s') \<and>
     after_di (ops (events_since s s')) = concat as \<and>
     length as = length (verify_crcs (ops (events_since s s'))) \<and> as \<noteq> [] \<and>
     (\<forall>a\<in>set as. \<exists>polls post.
        a = [EnableFlashKey, IOWrite FLASH_PROT 0, EnableFlashKey, IOWrite FLASH_FDIV 0x5F]
            @ concat (map (\<lambda>p. [IOWrite FLASH_PAGE (of_nat p), IOWrite FLASH_PGCTL 0x02]
                               @ map (IORead FLASH_PGCTL) (polls p)) [0..<FLASHPAGES])
            @ post \<and>
        (\<forall>p<FLASHPAGES. polls_ok (polls p)) \<and>
        (\<forall>e\<in>set post. \<not> is_erase_cmd e) \<and>
        copies post = copies a))"
proof -
  let ?fs = "u24 (getFileSize h (mos_fhandle s))"
  let ?A = "\<lambda>(polls, v). attempt_ops ?fs polls v"
  from update_mos_run [OF assms] obtain r s' sops pvs where
    run: "update_mos h s = Some (r, s')" and
    E: "ops (events_since s s') = sops @ DisableInterrupts # concat (map ?A pvs)" and
    sops: "\<forall>e\<in>set sops. is_crc_event e" and
    nonnil: "pvs \<noteq> []" and
    pok: "\<forall>(polls, v)\<in>set pvs. \<forall>p<FLASHPAGES. polls_ok (polls p)"
    by (elim exE conjE) (rule that; assumption)
  have vc: "verify_crcs (ops (events_since s s')) = map snd pvs"
    unfolding E by (rule run_verify_crcs [OF sops])
  have ad: "after_di (ops (events_since s s')) = concat (map ?A pvs)"
    unfolding E by (rule run_after_di [OF sops])
  have shape: "\<exists>polls post.
        a = [EnableFlashKey, IOWrite FLASH_PROT 0, EnableFlashKey, IOWrite FLASH_FDIV 0x5F]
            @ concat (map (\<lambda>p. [IOWrite FLASH_PAGE (of_nat p), IOWrite FLASH_PGCTL 0x02]
                               @ map (IORead FLASH_PGCTL) (polls p)) [0..<FLASHPAGES])
            @ post \<and>
        (\<forall>p<FLASHPAGES. polls_ok (polls p)) \<and>
        (\<forall>e\<in>set post. \<not> is_erase_cmd e) \<and>
        copies post = copies a" if "a \<in> set (map ?A pvs)" for a
  proof -
    from that obtain polls v where pv: "(polls, v) \<in> set pvs" and a: "a = attempt_ops ?fs polls v"
      by auto
    let ?post = "map (\<lambda>(d, src, n). FastMemcpy d src n) (program_copies ?fs)
        @ [EnableFlashKey, IOWrite FLASH_PROT 0xFF,
           Crc32Initialize, Crc32 FLASHSTART ?fs, Crc32Finalize v]"
    have "a = [EnableFlashKey, IOWrite FLASH_PROT 0, EnableFlashKey, IOWrite FLASH_FDIV 0x5F]
            @ concat (map (\<lambda>p. [IOWrite FLASH_PAGE (of_nat p), IOWrite FLASH_PGCTL 0x02]
                               @ map (IORead FLASH_PGCTL) (polls p)) [0..<FLASHPAGES])
            @ ?post"
      unfolding a by (rule attempt_ops_erase_first)
    moreover have "\<forall>p<FLASHPAGES. polls_ok (polls p)" using pok pv by blast
    moreover have "\<forall>e\<in>set ?post. \<not> is_erase_cmd e" by (rule attempt_suffix_no_erase)
    moreover have "copies ?post = copies a"
      unfolding a copies_attempt_ops by (simp add: copies_append copies_map)
    ultimately show ?thesis by blast
  qed
  have "FLASHPAGES = 128" "FLASHPAGES * PAGESIZE = FLASHSIZE"
    by (simp_all add: FLASHPAGES_def PAGESIZE_def FLASHSIZE_def)
  moreover have "\<exists>r s' as. update_mos h s = Some (r, s') \<and>
     after_di (ops (events_since s s')) = concat as \<and>
     length as = length (verify_crcs (ops (events_since s s'))) \<and> as \<noteq> [] \<and>
     (\<forall>a\<in>set as. \<exists>polls post.
        a = [EnableFlashKey, IOWrite FLASH_PROT 0, EnableFlashKey, IOWrite FLASH_FDIV 0x5F]
            @ concat (map (\<lambda>p. [IOWrite FLASH_PAGE (of_nat p), IOWrite FLASH_PGCTL 0x02]
                               @ map (IORead FLASH_PGCTL) (polls p)) [0..<FLASHPAGES])
            @ post \<and>
        (\<forall>p<FLASHPAGES. polls_ok (polls p)) \<and>
        (\<forall>e\<in>set post. \<not> is_erase_cmd e) \<and>
        copies post = copies a)"
    using run nonnil shape
    by (intro exI [of _ r] exI [of _ s'] exI [of _ "map ?A pvs"]) (simp add: vc ad)
  ultimately show ?thesis by blast
qed

theorem update_mos_erases_every_page_witness:
  "erase_completes stuck_flash \<and> crc32_of (mosfile sample_state) = moscrc sample_state \<and>
   (\<exists>r s' as. update_mos stuck_flash sample_state = Some (r, s') \<and>
     after_di (ops (events_since sample_state s')) = concat as \<and> as \<noteq> [] \<and>
     (\<forall>a\<in>set as. \<exists>polls post.
        a = [EnableFlashKey, IOWrite FLASH_PROT 0, EnableFlashKey, IOWrite FLASH_FDIV 0x5F]
            @ concat (map (\<lambda>p. [IOWrite FLASH_PAGE (of_nat p), IOWrite FLASH_PGCTL 0x02]
                               @ map (IORead FLASH_PGCTL) (polls p)) [0..<FLASHPAGES])
            @ post))"
proof -
  from update_mos_erases_every_page [OF erase_completes_stuck_flash sample_state_staged]
  obtain r s' as where
    run: "update_mos stuck_flash sample_state = Some (r, s')" and
    ad: "after_di (ops (events_since sample_state s')) = concat as" and
    nonnil: "as \<noteq> []" and
    shape: "\<forall>a\<in>set as. \<exists>polls post.
        a = [EnableFlashKey, IOWrite FLASH_PROT 0, EnableFlashKey, IOWrite FLASH_FDIV 0x5F]
            @ concat (map (\<lambda>p. [IOWrite FLASH_PAGE (of_nat p), IOWrite FLASH_PGCTL 0x02]
                               @ map (IORead FLASH_PGCTL) (polls p)) [0..<FLASHPAGES])
            @ post \<and>
        (\<forall>p<FLASHPAGES. polls_ok (polls p)) \<and>
        (\<forall>e\<in>set post. \<not> is_erase_cmd e) \<and>
        copies post = copies a"
    by (elim exE conjE) (rule that; assumption)
  have "\<forall>a\<in>set as. \<exists>polls post.
        a = [EnableFlashKey, IOWrite FLASH_PROT 0, EnableFlashKey, IOWrite FLASH_FDIV 0x5F]
            @ concat (map (\<lambda>p. [IOWrite FLASH_PAGE (of_nat p), IOWrite FLASH_PGCTL 0x02]
                               @ map (IORead FLASH_PGCTL) (polls p)) [0..<FLASHPAGES])
            @ post"
  proof
    fix a assume "a \<in> set as"
    with shape obtain polls post where
      "a = [EnableFlashKey, IOWrite FLASH_PROT 0, EnableFlashKey, IOWrite FLASH_FDIV 0x5F]
            @ concat (map (\<lambda>p. [IOWrite FLASH_PAGE (of_nat p), IOWrite FLASH_PGCTL 0x02]
                               @ map (IORead FLASH_PGCTL) (polls p)) [0..<FLASHPAGES])
            @ post"
      by blast
    then show "\<exists>polls post.
        a = [EnableFlashKey, IOWrite FLASH_PROT 0, EnableFlashKey, IOWrite FLASH_FDIV 0x5F]
            @ concat (map (\<lambda>p. [IOWrite FLASH_PAGE (of_nat p), IOWrite FLASH_PGCTL 0x02]
                               @ map (IORead FLASH_PGCTL) (polls p)) [0..<FLASHPAGES])
            @ post"
      by blast
  qed
  with erase_completes_stuck_flash sample_state_staged run ad nonnil show ?thesis by blast
qed

lemma stuck_flash_run:
  "\<exists>s' sops p1 v1 p2 v2 p3 v3.
     update_mos stuck_flash sample_state = Some (False, s') \<and>
     ops (events_since sample_state s') =
       sops @ DisableInterrupts #
         (attempt_ops 2 p1 v1 @ attempt_ops 2 p2 v2 @ attempt_ops 2 p3 v3) \<and>
     (\<forall>e\<in>set sops. is_crc_event e) \<and> \<not> interrupts s'"
proof -
  let ?fs = "u24 (getFileSize stuck_flash (mos_fhandle sample_state))"
  have fs: "?fs = 2" by (simp add: stuck_flash_def u24_def)
  note c = erase_completes_stuck_flash and st = sample_state_staged
  from update_mos_run [OF c st] obtain r s' sops pvs where
    run: "update_mos stuck_flash sample_state = Some (r, s')" and
    E: "ops (events_since sample_state s') =
       sops @ DisableInterrupts # concat (map (\<lambda>(polls, v). attempt_ops ?fs polls v) pvs)" and
    sops: "\<forall>e\<in>set sops. is_crc_event e" and
    nonnil: "pvs \<noteq> []" and
    vals: "\<forall>i<length pvs. snd (pvs ! i) =
        image_crc (mem_after stuck_flash ?fs (Suc i)
                     (write_bytes (mem sample_state) BUFFER1 (mosfile sample_state))) ?fs" and
    res: "r \<longleftrightarrow> last (map snd pvs) = moscrc sample_state" and
    full: "r \<or> length pvs = 3" and
    int: "\<not> interrupts s'"
    by (elim exE conjE) (rule that; assumption)
  have fails: "v \<noteq> moscrc sample_state" if "v \<in> set (map snd pvs)" for v
  proof -
    from that obtain i where i: "i < length pvs" and v: "v = snd (pvs ! i)"
      by (auto simp: in_set_conv_nth)
    from vals i have "snd (pvs ! i) =
        image_crc (write_bytes (mem sample_state) BUFFER1 (mosfile sample_state)) ?fs"
      by (simp only: mem_after_stuck_flash)
    with v sample_state_verify show "v \<noteq> moscrc sample_state" by simp
  qed
  have "last (map snd pvs) \<in> set (map snd pvs)"
    using nonnil by (intro last_in_set) simp
  with fails res have r: "\<not> r" by blast
  with full have "length pvs = 3" by blast
  then obtain a b c where "pvs = [a, b, c]" by (rule length_3_cases)
  then have "concat (map (\<lambda>(polls, v). attempt_ops ?fs polls v) pvs) =
        attempt_ops 2 (fst a) (snd a) @ attempt_ops 2 (fst b) (snd b)
        @ attempt_ops 2 (fst c) (snd c)"
    by (simp add: split_beta fs)
  with run E sops int r show ?thesis
    by (intro exI [of _ s'] exI [of _ sops] exI [of _ "fst a"] exI [of _ "snd a"]
          exI [of _ "fst b"] exI [of _ "snd b"] exI [of _ "fst c"] exI [of _ "snd c"]) simp
qed

lemma count_erase_starts:
  "count_list (concat (map (\<lambda>p. [IOWrite FLASH_PAGE (of_nat p), IOWrite FLASH_PGCTL 0x02]
                        @ map (IORead FLASH_PGCTL) (polls p)) xs)) (IOWrite FLASH_PGCTL 0x02)
   = length xs"
proof (induction xs)
  case Nil
  then show ?case by simp
next
  case (Cons x xs)
  have "IOWrite FLASH_PGCTL 0x02 \<notin> set (map (IORead FLASH_PGCTL) (polls x))" by auto
  then have "count_list (map (IORead FLASH_PGCTL) (polls x)) (IOWrite FLASH_PGCTL 0x02) = 0"
    by (rule count_list_absent)
  with Cons show ?case by (simp add: count_list_append)
qed

lemma count_attempt_erase_starts:
  "count_list (attempt_ops fs polls v) (IOWrite FLASH_PGCTL 0x02) = 128"
proof -
  have "IOWrite FLASH_PGCTL 0x02 \<notin> set (map (\<lambda>(d, src, n). FastMemcpy d src n) (program_copies fs))"
    by auto
  then have "count_list (map (\<lambda>(d, src, n). FastMemcpy d src n) (program_copies fs))
      (IOWrite FLASH_PGCTL 0x02) = 0"
    by (rule count_list_absent)
  moreover have "count_list (erase_ops polls) (IOWrite FLASH_PGCTL 0x02) = 128"
    unfolding erase_ops_def count_erase_starts by (simp add: FLASHPAGES_def)
  ultimately show ?thesis
    by (simp add: attempt_ops_def count_list_append)
qed

lemma attempt_ops_no_di: "DisableInterrupts \<notin> set (attempt_ops fs polls v)"
proof -
  have "DisableInterrupts \<notin> set (erase_ops polls)"
    using erase_ops_cmds by fastforce
  then show ?thesis by (auto simp: attempt_ops_def)
qed

lemma crc_events_count:
  "\<forall>e\<in>set xs. is_crc_event e \<Longrightarrow> \<not> is_crc_event e \<Longrightarrow> count_list xs e = 0"
  by (intro count_list_absent) blast

text \<open>
  Claim C4 as stated fails. With the flash that never takes the data and the two-byte
  image, the run makes three attempts and sets the page-erase bit 384 times: 128 times
  in each attempt, not 8 times.
\<close>

theorem update_mos_erase_blocks_counterexample:
  "update_mos stuck_flash sample_state \<noteq> None \<and>
   length (verify_crcs (ops (events_since sample_state
             (snd (the (update_mos stuck_flash sample_state)))))) = 3 \<and>
   count_list (ops (events_since sample_state
             (snd (the (update_mos stuck_flash sample_state))))) (IOWrite FLASH_PGCTL 0x02) = 384"
proof -
  from stuck_flash_run obtain s' sops p1 v1 p2 v2 p3 v3 where
    run: "update_mos stuck_flash sample_state = Some (False, s')" and
    E: "ops (events_since sample_state s') =
       sops @ DisableInterrupts #
         (attempt_ops 2 p1 v1 @ attempt_ops 2 p2 v2 @ attempt_ops 2 p3 v3)" and
    sops: "\<forall>e\<in>set sops. is_crc_event e"
    by (elim exE conjE) (rule that; assumption)
  have "verify_crcs (ops (events_since sample_state s')) = [v1, v2, v3]"
    unfolding E verify_crcs_def run_after_di [OF sops]
    by (simp add: finalized_append finalized_attempt_ops)
  moreover have "count_list sops (IOWrite FLASH_PGCTL 0x02) = 0"
    using sops by (rule crc_events_count) simp
  then have "count_list (ops (events_since sample_state s')) (IOWrite FLASH_PGCTL 0x02) = 384"
    unfolding E by (simp add: count_list_append count_attempt_erase_starts)
  ultimately show ?thesis by (simp add: run)
qed

section \<open>Interrupts\<close>

text \<open>
  Claim C5, as the code has it. \<open>update_mos\<close> disables interrupts once, after the
  staging check and before the first attempt, and never enables them again. In a run
  that gets past the staging check there is exactly one \<^verbatim>\<open>di\<close>; no operation on the
  flash stands before it, every attempt stands after it, and the interrupt flag is off
  when \<open>update_mos\<close> returns, whatever it returns. In a run that fails the staging check
  there is no \<^verbatim>\<open>di\<close> and the flag is as it was.
\<close>

theorem update_mos_interrupts_stay_disabled:
  assumes "erase_completes h"
  shows "\<exists>r s'. update_mos h s = Some (r, s') \<and>
     (if crc32_of (mosfile s) = moscrc s
      then \<not> interrupts s' \<and>
           (\<exists>pre post. ops (events_since s s') = pre @ DisableInterrupts # post \<and>
              DisableInterrupts \<notin> set pre \<and> DisableInterrupts \<notin> set post \<and>
              (\<forall>e\<in>set pre. \<not> is_flash_op e) \<and>
              finalized post = verify_crcs (ops (events_since s s')) \<and> finalized post \<noteq> [])
      else interrupts s' = interrupts s \<and> DisableInterrupts \<notin> set (events_since s s'))"
proof (cases "crc32_of (mosfile s) = moscrc s")
  case True
  let ?fs = "u24 (getFileSize h (mos_fhandle s))"
  let ?A = "\<lambda>(polls, v). attempt_ops ?fs polls v"
  from update_mos_run [OF assms True] obtain r s' sops pvs where
    run: "update_mos h s = Some (r, s')" and
    E: "ops (events_since s s') = sops @ DisableInterrupts # concat (map ?A pvs)" and
    sops: "\<forall>e\<in>set sops. is_crc_event e" and
    nonnil: "pvs \<noteq> []" and
    int: "\<not> interrupts s'"
    by (elim exE conjE) (rule that; assumption)
  have vc: "verify_crcs (ops (events_since s s')) = map snd pvs"
    unfolding E by (rule run_verify_crcs [OF sops])
  have "DisableInterrupts \<notin> set sops" using sops by (rule crc_events_no_di)
  moreover have "DisableInterrupts \<notin> set (concat (map ?A pvs))"
    using attempt_ops_no_di by auto
  moreover have "\<forall>e\<in>set sops. \<not> is_flash_op e"
    using sops flash_op_kinds by blast
  moreover have "finalized (concat (map ?A pvs)) = map snd pvs"
    by (rule finalized_attempts)
  ultimately have "\<exists>pre post. ops (events_since s s') = pre @ DisableInterrupts # post \<and>
              DisableInterrupts \<notin> set pre \<and> DisableInterrupts \<notin> set post \<and>
              (\<forall>e\<in>set pre. \<not> is_flash_op e) \<and>
              finalized post = verify_crcs (ops (events_since s s')) \<and> finalized post \<noteq> []"
    using E nonnil unfolding vc
    by (intro exI [of _ sops] exI [of _ "concat (map ?A pvs)"]) simp
  with run int True show ?thesis by auto
next
  case False
  from update_mos_mismatch [OF False, of h] obtain s' es where
    run: "update_mos h s = Some (False, s')" and
    tr: "trace s' = trace s @ es" and
    crc: "\<forall>e\<in>set (ops es). is_crc_event e" and
    int: "interrupts s' = interrupts s"
    by (elim exE conjE) (rule that; assumption)
  have E: "events_since s s' = es" using tr by (rule events_since_append)
  have "DisableInterrupts \<notin> set es"
  proof
    assume "DisableInterrupts \<in> set es"
    then have "DisableInterrupts \<in> set (ops es)" by (simp add: ops_def)
    with crc show False by auto
  qed
  with run int False show ?thesis
    by (intro exI [of _ False] exI [of _ s']) (simp add: E)
qed

theorem update_mos_interrupts_stay_disabled_witness:
  "erase_completes stuck_flash \<and> crc32_of (mosfile sample_state) = moscrc sample_state \<and>
   (\<exists>r s'. update_mos stuck_flash sample_state = Some (r, s') \<and> \<not> interrupts s' \<and>
      (\<exists>pre post. ops (events_since sample_state s') = pre @ DisableInterrupts # post \<and>
         DisableInterrupts \<notin> set pre \<and> DisableInterrupts \<notin> set post))"
proof -
  from update_mos_interrupts_stay_disabled [OF erase_completes_stuck_flash, of sample_state]
  obtain r s' where
    run: "update_mos stuck_flash sample_state = Some (r, s')" and
    cond: "if crc32_of (mosfile sample_state) = moscrc sample_state
      then \<not> interrupts s' \<and>
           (\<exists>pre post. ops (events_since sample_state s') = pre @ DisableInterrupts # post \<and>
              DisableInterrupts \<notin> set pre \<and> DisableInterrupts \<notin> set post \<and>
              (\<forall>e\<in>set pre. \<not> is_flash_op e) \<and>
              finalized post = verify_crcs (ops (events_since sample_state s')) \<and>
              finalized post \<noteq> [])
      else interrupts s' = interrupts sample_state \<and>
           DisableInterrupts \<notin> set (events_since sample_state s')"
    by blast
  from cond sample_state_staged have int: "\<not> interrupts s'" and
    "\<exists>pre post. ops (events_since sample_state s') = pre @ DisableInterrupts # post \<and>
              DisableInterrupts \<notin> set pre \<and> DisableInterrupts \<notin> set post \<and>
              (\<forall>e\<in>set pre. \<not> is_flash_op e) \<and>
              finalized post = verify_crcs (ops (events_since sample_state s')) \<and>
              finalized post \<noteq> []"
    by simp_all
  then obtain pre post where
    "ops (events_since sample_state s') = pre @ DisableInterrupts # post"
    "DisableInterrupts \<notin> set pre" "DisableInterrupts \<notin> set post"
    by blast
  with erase_completes_stuck_flash sample_state_staged run int show ?thesis by blast
qed

text \<open>
  Claim C5 as stated fails. In the run of three attempts above, interrupts are enabled
  at the call and disabled at the return, which reports failure; \<^verbatim>\<open>di\<close> is executed once
  for the three attempts, and nothing enables interrupts between them.
\<close>

theorem update_mos_interrupts_counterexample:
  "update_mos stuck_flash sample_state \<noteq> None \<and>
   interrupts sample_state \<and>
   \<not> fst (the (update_mos stuck_flash sample_state)) \<and>
   \<not> interrupts (snd (the (update_mos stuck_flash sample_state))) \<and>
   length (verify_crcs (ops (events_since sample_state
             (snd (the (update_mos stuck_flash sample_state)))))) = 3 \<and>
   count_list (ops (events_since sample_state
             (snd (the (update_mos stuck_flash sample_state))))) DisableInterrupts = 1"
proof -
  from stuck_flash_run obtain s' sops p1 v1 p2 v2 p3 v3 where
    run: "update_mos stuck_flash sample_state = Some (False, s')" and
    E: "ops (events_since sample_state s') =
       sops @ DisableInterrupts #
         (attempt_ops 2 p1 v1 @ attempt_ops 2 p2 v2 @ attempt_ops 2 p3 v3)" and
    sops: "\<forall>e\<in>set sops. is_crc_event e" and
    int: "\<not> interrupts s'"
    by (elim exE conjE) (rule that; assumption)
  have "verify_crcs (ops (events_since sample_state s')) = [v1, v2, v3]"
    unfolding E verify_crcs_def run_after_di [OF sops]
    by (simp add: finalized_append finalized_attempt_ops)
  moreover have "count_list sops DisableInterrupts = 0"
    using sops by (rule crc_events_count) simp
  then have "count_list (ops (events_since sample_state s')) DisableInterrupts = 1"
    unfolding E
    by (simp add: count_list_append count_list_absent [OF attempt_ops_no_di])
  moreover have "interrupts sample_state" by (simp add: sample_state_def)
  ultimately show ?thesis using int by (simp add: run)
qed

section \<open>The pages written\<close>

lemma ceil_div_1024:
  "((fs::nat) + 1023) div 1024 = (if fs mod 1024 = 0 then fs div 1024 else fs div 1024 + 1)"
proof -
  define q r where "q = fs div 1024" and "r = fs mod 1024"
  have fs: "fs = 1024 * q + r" and r: "r < 1024" by (simp_all add: q_def r_def)
  show ?thesis
  proof (cases "r = 0")
    case True
    have "(fs + 1023) div 1024 = q"
      by (rule div_nat_eqI) (simp_all add: fs True)
    with True show ?thesis by (simp add: q_def r_def)
  next
    case False
    have "(fs + 1023) div 1024 = Suc q"
      by (rule div_nat_eqI) (use False r in \<open>simp_all add: fs\<close>)
    with False show ?thesis by (simp add: q_def r_def)
  qed
qed

lemma pages_bound:
  assumes "(fs::nat) < 16777216"
  shows "fs div 1024 < 16384" and "(fs + 1023) div 1024 \<le> 16384"
proof -
  show a: "fs div 1024 < 16384"
    by (rule less_mult_imp_div_less) (use assms in simp)
  then show "(fs + 1023) div 1024 \<le> 16384"
    unfolding ceil_div_1024 by simp
qed

lemma page_layout_closed:
  assumes "fs < 16777216"
  shows "page_layout fs =
     ((fs + 1023) div 1024, if fs mod 1024 = 0 then 1024 else fs mod 1024)"
proof -
  have "fs div 1024 + 1 < 16777216" using pages_bound(1) [OF assms] by simp
  then have "u24 (fs div 1024 + 1) = fs div 1024 + 1" by (rule u24_idem)
  then show ?thesis
    unfolding page_layout_def PAGESIZE_def ceil_div_1024 by simp
qed

lemma program_copies_closed:
  assumes "fs < 16777216"
  shows "program_copies fs =
     map (\<lambda>i. (i * 1024, u24 (BUFFER1 + i * 1024),
               if Suc i = (fs + 1023) div 1024
               then (if fs mod 1024 = 0 then 1024 else fs mod 1024) else 1024))
       [0..<(fs + 1023) div 1024]"
proof -
  let ?n = "(fs + 1023) div 1024"
  have n: "?n \<le> 16384" using assms by (rule pages_bound(2))
  have "map (\<lambda>i. (u24 (FLASHSTART + i * PAGESIZE), u24 (BUFFER1 + i * PAGESIZE),
               if i = u24 (?n + 16777215)
               then (if fs mod 1024 = 0 then 1024 else fs mod 1024) else PAGESIZE)) [0..<?n]
      = map (\<lambda>i. (i * 1024, u24 (BUFFER1 + i * 1024),
               if Suc i = ?n
               then (if fs mod 1024 = 0 then 1024 else fs mod 1024) else 1024)) [0..<?n]"
  proof (rule map_cong [OF refl])
    fix i assume "i \<in> set [0..<?n]"
    then have i: "i < ?n" by simp
    with n have "i < 16384" by simp
    then have "i * 1024 < 16777216" by simp
    then have a: "u24 (FLASHSTART + i * PAGESIZE) = i * 1024"
      by (simp add: u24_def FLASHSTART_def PAGESIZE_def)
    from i obtain k where k: "?n = Suc k" by (cases ?n) simp_all
    with n have "k < 16777216" by simp
    then have "u24 (Suc k + 16777215) = k"
      by (simp add: u24_def)
    then have b: "(i = u24 (?n + 16777215)) = (Suc i = ?n)"
      unfolding k by auto
    show "(u24 (FLASHSTART + i * PAGESIZE), u24 (BUFFER1 + i * PAGESIZE),
               if i = u24 (?n + 16777215)
               then (if fs mod 1024 = 0 then 1024 else fs mod 1024) else PAGESIZE)
        = (i * 1024, u24 (BUFFER1 + i * 1024),
               if Suc i = ?n
               then (if fs mod 1024 = 0 then 1024 else fs mod 1024) else 1024)"
      unfolding a b by (simp add: PAGESIZE_def)
  qed
  then show ?thesis
    unfolding program_copies_def page_layout_closed [OF assms] fst_conv snd_conv .
qed

text \<open>
  Claim C7. Let \<open>S\<close> be the image size \<open>update_mos\<close> obtains (a 24-bit value). In every
  attempt of a run that gets past the staging check, the bulk copies are exactly
  \<open>(S + 1023) div 1024\<close>, that is \<open>ceil(S / 1024)\<close>: copy \<open>i\<close> (from 0) goes to flash
  address \<open>1024 * i\<close>, from the staging buffer at \<open>BUFFER1 + 1024 * i\<close>, with length 1024,
  except the last one, whose length is \<open>S mod 1024\<close>, or 1024 when 1024 divides \<open>S\<close>.
  (For \<open>S = 0\<close> there is no copy.)
\<close>

theorem update_mos_page_writes:
  assumes "erase_completes h" and "crc32_of (mosfile s) = moscrc s"
  shows "\<exists>r s' as. update_mos h s = Some (r, s') \<and>
     after_di (ops (events_since s s')) = concat as \<and>
     length as = length (verify_crcs (ops (events_since s s'))) \<and> as \<noteq> [] \<and>
     (\<forall>a\<in>set as. copies a =
        map (\<lambda>i. (i * 1024, u24 (BUFFER1 + i * 1024),
                  if Suc i = (u24 (getFileSize h (mos_fhandle s)) + 1023) div 1024
                  then (if u24 (getFileSize h (mos_fhandle s)) mod 1024 = 0 then 1024
                        else u24 (getFileSize h (mos_fhandle s)) mod 1024)
                  else 1024))
          [0..<(u24 (getFileSize h (mos_fhandle s)) + 1023) div 1024])"
proof -
  let ?fs = "u24 (getFileSize h (mos_fhandle s))"
  let ?A = "\<lambda>(polls, v). attempt_ops ?fs polls v"
  from update_mos_run [OF assms] obtain r s' sops pvs where
    run: "update_mos h s = Some (r, s')" and
    E: "ops (events_since s s') = sops @ DisableInterrupts # concat (map ?A pvs)" and
    sops: "\<forall>e\<in>set sops. is_crc_event e" and
    nonnil: "pvs \<noteq> []"
    by (elim exE conjE) (rule that; assumption)
  have vc: "verify_crcs (ops (events_since s s')) = map snd pvs"
    unfolding E by (rule run_verify_crcs [OF sops])
  have ad: "after_di (ops (events_since s s')) = concat (map ?A pvs)"
    unfolding E by (rule run_after_di [OF sops])
  have pages: "copies a =
        map (\<lambda>i. (i * 1024, u24 (BUFFER1 + i * 1024),
                  if Suc i = (?fs + 1023) div 1024
                  then (if ?fs mod 1024 = 0 then 1024 else ?fs mod 1024) else 1024))
          [0..<(?fs + 1023) div 1024]" if "a \<in> set (map ?A pvs)" for a
  proof -
    from that obtain polls v where a: "a = attempt_ops ?fs polls v" by auto
    show ?thesis
      unfolding a copies_attempt_ops by (rule program_copies_closed [OF u24_less])
  qed
  show ?thesis
    using run nonnil pages
    by (intro exI [of _ r] exI [of _ s'] exI [of _ "map ?A pvs"]) (simp add: vc ad)
qed

theorem update_mos_page_writes_witness:
  "erase_completes stuck_flash \<and> crc32_of (mosfile sample_state) = moscrc sample_state \<and>
   (\<exists>r s' as. update_mos stuck_flash sample_state = Some (r, s') \<and>
     after_di (ops (events_since sample_state s')) = concat as \<and> as \<noteq> [] \<and>
     (\<forall>a\<in>set as. copies a = [(0, 327680, 2)]))"
proof -
  let ?fs = "u24 (getFileSize stuck_flash (mos_fhandle sample_state))"
  have fs: "?fs = 2" by (simp add: stuck_flash_def u24_def)
  from update_mos_page_writes [OF erase_completes_stuck_flash sample_state_staged]
  obtain r s' as where
    run: "update_mos stuck_flash sample_state = Some (r, s')" and
    ad: "after_di (ops (events_since sample_state s')) = concat as" and
    nonnil: "as \<noteq> []" and
    pages: "\<forall>a\<in>set as. copies a =
        map (\<lambda>i. (i * 1024, u24 (BUFFER1 + i * 1024),
                  if Suc i = (?fs + 1023) div 1024
                  then (if ?fs mod 1024 = 0 then 1024 else ?fs mod 1024) else 1024))
          [0..<(?fs + 1023) div 1024]"
    by (elim exE conjE) (rule that; assumption)
  have "\<forall>a\<in>set as. copies a = [(0, 327680, 2)]"
    using pages unfolding fs by (simp add: u24_def BUFFER1_def)
  with erase_completes_stuck_flash sample_state_staged run ad nonnil show ?thesis by blast
qed

text \<open>The two sizes the specification gives as examples: 5 pages, and 6 with a last page of 1.\<close>

lemma program_copies_5120:
  "map (\<lambda>(d, src, n). (d, n)) (program_copies 5120) =
     [(0, 1024), (1024, 1024), (2048, 1024), (3072, 1024), (4096, 1024)]"
  by (simp add: program_copies_closed upt_conv_Cons)

lemma program_copies_5121:
  "map (\<lambda>(d, src, n). (d, n)) (program_copies 5121) =
     [(0, 1024), (1024, 1024), (2048, 1024), (3072, 1024), (4096, 1024), (5120, 1)]"
  by (simp add: program_copies_closed upt_conv_Cons)

section \<open>The checksum does not depend on the chunking\<close>

lemma foldl_crc32_feed: "foldl crc32_feed acc chunks = crc32_feed acc (concat chunks)"
  by (induction chunks arbitrary: acc) (simp_all add: crc32_feed_append crc32_feed_def)

lemma stage_loop_crc: "crc (stage_loop ptr s) = crc32_feed (crc s) (mosfile s)"
proof -
  from stage_loop_eq [of ptr s] obtain es where
    "stage_loop ptr s =
       s\<lparr>mem := write_bytes (mem s) ptr (mosfile s),
         crc := crc32_feed (crc s) (mosfile s),
         mosfile := [],
         trace := trace s @ es\<rparr>"
    by blast
  then show ?thesis by simp
qed

text \<open>The check value of the standard CRC-32: the checksum of the ASCII digits 1 to 9.\<close>

lemma crc32_check_value:
  "crc32_of [0x31, 0x32, 0x33, 0x34, 0x35, 0x36, 0x37, 0x38, 0x39] = 0xCBF43926"
  by code_simp

text \<open>
  Claim C6. For the checksum module as the specification defines it: feeding the
  chunks of any split of a byte sequence, empty chunks included, one after the other into
  a fresh accumulator and finalising gives the checksum of the whole sequence fed at once.
  The staging loop of \<open>update_mos\<close> is such a split (chunks of at most \<open>BLOCKSIZE\<close>
  bytes, each written to memory and read back from there): started on a fresh
  accumulator, it ends with the checksum of the whole file.
\<close>

theorem crc32_chunking:
  "crc32_final (foldl crc32_feed crc32_init chunks) =
     crc32_final (crc32_feed crc32_init (concat chunks)) \<and>
   fst (crc32_finalize (stage_loop BUFFER1 (crc32_initialize s))) = crc32_of (mosfile s)"
  by (simp add: foldl_crc32_feed stage_loop_crc crc32_finalize_def crc32_initialize_def
        emit_def crc32_of_def)

theorem crc32_chunking_witness:
  "crc32_final (foldl crc32_feed crc32_init [[0x31], [], [0x32]]) =
     crc32_final (crc32_feed crc32_init [0x31, 0x32]) \<and>
   fst (crc32_finalize (stage_loop BUFFER1 (crc32_initialize sample_state))) = 0x4F5344CD"
  using crc32_chunking [of "[[0x31], [], [0x32]]" sample_state] sample_state_staged
  by (simp add: sample_state_def)

section \<open>The magic number of a coprocessor image\<close>

text \<open>
  Claim C9. \<open>containsESP32Header\<close> holds exactly when the bytes at the offsets
  \<open>0x20\<close> to \<open>0x23\<close> are \<open>0x32, 0x54, 0xCD, 0xAB\<close>. So two buffers that agree at these four
  offsets get the same answer, and changing one of the four bytes of an accepted buffer
  makes it rejected.
\<close>

theorem containsESP32Header_iff:
  "(containsESP32Header buf \<longleftrightarrow>
      buf 0x20 = 0x32 \<and> buf 0x21 = 0x54 \<and> buf 0x22 = 0xCD \<and> buf 0x23 = 0xAB) \<and>
   ((\<forall>i. 0x20 \<le> i \<and> i \<le> 0x23 \<longrightarrow> buf' i = buf i) \<longrightarrow>
      containsESP32Header buf' = containsESP32Header buf) \<and>
   (containsESP32Header buf \<and> 0x20 \<le> i \<and> i \<le> 0x23 \<and> v \<noteq> buf i \<longrightarrow>
      \<not> containsESP32Header (buf(i := v)))"
proof -
  have iff: "containsESP32Header b \<longleftrightarrow>
      b 0x20 = 0x32 \<and> b 0x21 = 0x54 \<and> b 0x22 = 0xCD \<and> b 0x23 = 0xAB" for b
    by (auto simp: containsESP32Header_def ESP32_MAGICSTART_def ESP32_MAGICLENGTH_def
          esp32_magicnumbers_def)
  have same: "containsESP32Header buf' = containsESP32Header buf"
    if "\<forall>i. 0x20 \<le> i \<and> i \<le> 0x23 \<longrightarrow> buf' i = buf i"
    unfolding iff using that by simp
  have diff: "\<not> containsESP32Header (buf(i := v))"
    if "containsESP32Header buf" "0x20 \<le> i" "i \<le> 0x23" "v \<noteq> buf i"
  proof -
    from that(2,3) have "i = 0x20 \<or> i = 0x21 \<or> i = 0x22 \<or> i = 0x23" by arith
    with that(1,4) show ?thesis unfolding iff by auto
  qed
  from iff [of buf] same diff show ?thesis by blast
qed

theorem containsESP32Header_iff_witness:
  "containsESP32Header esp32_image \<and>
   containsESP32Header (esp32_image(0 := 0)) \<and>
   \<not> containsESP32Header (esp32_image(0x21 := 0))"
  using containsESP32Header_iff [where buf = esp32_image and buf' = "esp32_image(0 := 0)"
      and i = "0x21" and v = 0]
  by (simp add: esp32_image_def)

section \<open>The unlock handshake\<close>

lemma getCharAt_eq:
  "getCharAt h x y s =
     (scrchar h (scr_reads s),
      s\<lparr>scr_reads := Suc (scr_reads s), trace := trace s @ screen_query x y\<rparr>)"
  by (simp add: getCharAt_def Let_def delayms_def putch_def emit_def screen_query_def)

text \<open>
  From any index within the array, the loop runs up to the store at index
  \<open>UNLOCKMATCHLENGTH\<close> and ends there.
\<close>

lemma test_loop_eq:
  assumes "n \<le> UNLOCKMATCHLENGTH" and "length test = UNLOCKMATCHLENGTH"
  shows "test_loop h n test s =
     Inl (StoreOutOfBounds UNLOCKMATCHLENGTH,
          s\<lparr>scr_reads := scr_reads s + (UNLOCKMATCHLENGTH + 1 - n),
            trace := trace s @ readback h (scr_reads s) n\<rparr>)"
  using assms
proof (induction "UNLOCKMATCHLENGTH - n" arbitrary: n test s)
  case 0
  then have n: "n = UNLOCKMATCHLENGTH" by simp
  have "[n..<UNLOCKMATCHLENGTH + 1] = [n]" by (simp add: n)
  then have rb: "readback h (scr_reads s) n =
      screen_query (n + 8) 3 @ [StoreTest n (scrchar h (scr_reads s))]"
    by (simp add: readback_def)
  show ?case
    unfolding rb using 0(3)
    by (subst test_loop.simps) (simp add: n getCharAt_eq emit_def)
next
  case (Suc m)
  then have n: "n < UNLOCKMATCHLENGTH" by simp
  let ?c = "scrchar h (scr_reads s)"
  define s1 where "s1 = emit (StoreTest n ?c)
      (s\<lparr>scr_reads := Suc (scr_reads s), trace := trace s @ screen_query (n + 8) 3\<rparr>)"
  have m: "m = UNLOCKMATCHLENGTH - Suc n" using Suc.hyps(2) by simp
  have len: "length (test[n := ?c]) = UNLOCKMATCHLENGTH" using Suc.prems(2) by simp
  have next_n: "Suc n \<le> UNLOCKMATCHLENGTH" using n by simp
  have step: "test_loop h n test s = test_loop h (Suc n) (test[n := ?c]) s1"
    using n Suc.prems(2) by (subst test_loop.simps) (simp add: getCharAt_eq s1_def)
  have upt: "[n..<UNLOCKMATCHLENGTH + 1] = n # [Suc n..<UNLOCKMATCHLENGTH + 1]"
    using n by (simp add: upt_conv_Cons)
  have tail: "map (\<lambda>i. screen_query (i + 8) 3 @ [StoreTest i (scrchar h (scr_reads s1 + (i - Suc n)))])
        [Suc n..<UNLOCKMATCHLENGTH + 1]
      = map (\<lambda>i. screen_query (i + 8) 3 @ [StoreTest i (scrchar h (scr_reads s + (i - n)))])
        [Suc n..<UNLOCKMATCHLENGTH + 1]"
  proof (rule map_cong [OF refl])
    fix i assume "i \<in> set [Suc n..<UNLOCKMATCHLENGTH + 1]"
    then have "i - n = Suc (i - Suc n)" by auto
    then have "scr_reads s1 + (i - Suc n) = scr_reads s + (i - n)"
      by (simp add: s1_def emit_def)
    then show "screen_query (i + 8) 3 @ [StoreTest i (scrchar h (scr_reads s1 + (i - Suc n)))]
        = screen_query (i + 8) 3 @ [StoreTest i (scrchar h (scr_reads s + (i - n)))]"
      by simp
  qed
  have rb: "readback h (scr_reads s) n =
      screen_query (n + 8) 3 @ [StoreTest n ?c] @ readback h (scr_reads s1) (Suc n)"
    unfolding readback_def upt tail by simp
  show ?case
    unfolding step Suc.hyps(1) [OF m next_n len] rb using n
    by (simp add: s1_def emit_def)
qed

lemma vdp_ota_present_eq:
  "vdp_ota_present h s =
     Inl (StoreOutOfBounds UNLOCKMATCHLENGTH,
          s\<lparr>scr_reads := scr_reads s + (UNLOCKMATCHLENGTH + 1),
            trace := trace s @ [Putch 23, Putch 0, Putch 0xA1, Putch 0]
                 @ map (\<lambda>ch. Putch (of_char ch)) ''unlock'' @ readback h (scr_reads s) 0\<rparr>)"
proof -
  define s5 where "s5 = outstring ''unlock'' (putch 0 (putch 0xA1 (putch 0 (putch 23 s))))"
  have s5: "s5 = s\<lparr>trace := trace s @ [Putch 23, Putch 0, Putch 0xA1, Putch 0]
                 @ map (\<lambda>ch. Putch (of_char ch)) ''unlock''\<rparr>"
    by (simp add: s5_def putch_def emit_def outstring_eq)
  have run: "vdp_ota_present h s =
      (case test_loop h 0 (replicate UNLOCKMATCHLENGTH 0) s5 of
         Inl e \<Rightarrow> Inl e
       | Inr (test, s6) \<Rightarrow> Inr (memcmp_eq test ''unlocked!'' UNLOCKMATCHLENGTH, s6))"
    by (simp add: vdp_ota_present_def Let_def s5_def)
  have loop: "test_loop h 0 (replicate UNLOCKMATCHLENGTH 0) s5 =
     Inl (StoreOutOfBounds UNLOCKMATCHLENGTH,
          s5\<lparr>scr_reads := scr_reads s5 + (UNLOCKMATCHLENGTH + 1 - 0),
            trace := trace s5 @ readback h (scr_reads s5) 0\<rparr>)"
    by (rule test_loop_eq) simp_all
  show ?thesis
    unfolding run loop sum.case by (simp add: s5)
qed



lemma stores_append: "stores (xs @ ys) = stores xs @ stores ys"
  by (induction xs rule: stores.induct) simp_all

lemma stores_readback: "stores (readback h k 0) = [0..<UNLOCKMATCHLENGTH + 1]"
  by (simp add: readback_def UNLOCKMATCHLENGTH_def upt_conv_Cons screen_query_def)





section \<open>The response buffer\<close>

text \<open>
  Claim C10 fails on the code. The array \<^verbatim>\<open>test\<close> has \<open>UNLOCKMATCHLENGTH = 9\<close>
  elements, and the read-back loop runs while \<^verbatim>\<open>n < UNLOCKMATCHLENGTH+1\<close>: whatever the
  screen returns, \<open>vdp_ota_present\<close> stores at the indices 0 to 9, and the store at index
  9 is past the end of the array. Every call ends with that store.
\<close>

theorem vdp_ota_present_stores:
  "UNLOCKMATCHLENGTH = 9 \<and>
   stores (events_since s (final (vdp_ota_present h s))) = [0, 1, 2, 3, 4, 5, 6, 7, 8, 9] \<and>
   UNLOCKMATCHLENGTH \<in> set (stores (events_since s (final (vdp_ota_present h s)))) \<and>
   vdp_ota_present h s = Inl (StoreOutOfBounds 9, final (vdp_ota_present h s))"
proof -
  have "trace (final (vdp_ota_present h s)) =
      trace s @ ([Putch 23, Putch 0, Putch 0xA1, Putch 0]
                 @ map (\<lambda>ch. Putch (of_char ch)) ''unlock'' @ readback h (scr_reads s) 0)"
    by (simp add: vdp_ota_present_eq final_def)
  then have "events_since s (final (vdp_ota_present h s)) =
      [Putch 23, Putch 0, Putch 0xA1, Putch 0]
      @ map (\<lambda>ch. Putch (of_char ch)) ''unlock'' @ readback h (scr_reads s) 0"
    by (rule events_since_append)
  then have "stores (events_since s (final (vdp_ota_present h s))) = [0..<UNLOCKMATCHLENGTH + 1]"
    by (simp add: stores_append stores_readback)
  moreover have "vdp_ota_present h s = Inl (StoreOutOfBounds 9, final (vdp_ota_present h s))"
    by (simp add: vdp_ota_present_eq final_def UNLOCKMATCHLENGTH_def)
  ultimately show ?thesis
    by (simp add: UNLOCKMATCHLENGTH_def upt_conv_Cons)
qed

end
